theory Spec2Isabelle
  imports
    Complex_Main
    "HOL-Library.Char_ord"
    "HOL-Library.List_Lexorder"
    "HOL-Library.Sublist"
    "HOL-Library.Multiset"
begin

section \<open>Bytes, C strings and the C library\<close>

text \<open>
  A byte is a \<^typ>\<open>char\<close> (eight bits, ordered by its unsigned value), a buffer is a
  \<^typ>\<open>string\<close>. A C string is modelled by its content, the bytes before the terminating
  NUL; \<open>c_str\<close> is what a C string function sees of a buffer.
\<close>

definition NUL :: char where
  "NUL = CHR 0x00"


definition c_str :: "string \<Rightarrow> string" where
  "c_str buf = takeWhile (\<lambda>c. c \<noteq> NUL) buf"

text \<open>\<open>isspace\<close> of the C locale: space, and the control bytes 0x09 to 0x0D.\<close>

definition isspace_c :: "char \<Rightarrow> bool" where
  "isspace_c c = (c = CHR 0x20 \<or> c = CHR 0x09 \<or> c = CHR 0x0A \<or> c = CHR 0x0B
                  \<or> c = CHR 0x0C \<or> c = CHR 0x0D)"

text \<open>\<open>toupper\<close> of the C locale: only \<open>a\<close> to \<open>z\<close> change.\<close>

definition toupper_c :: "char \<Rightarrow> char" where
  "toupper_c c = (if CHR ''a'' \<le> c \<and> c \<le> CHR ''z'' then char_of (of_char c - (32::nat)) else c)"

text \<open>
  \<open>strcmp\<close> on the contents of two C strings: bytes compare as unsigned values; only the
  sign of the result is used by the callers.
\<close>

fun strcmp_c :: "string \<Rightarrow> string \<Rightarrow> int" where
  "strcmp_c [] [] = 0"
| "strcmp_c [] (y # ys) = - 1"
| "strcmp_c (x # xs) [] = 1"
| "strcmp_c (x # xs) (y # ys) =
     (if x = y then strcmp_c xs ys else if x < y then - 1 else 1)"

text \<open>
  \<open>memcmp a b n\<close> on two buffers: the first differing byte among the first \<open>n\<close> decides.
  The last equation is a read past the end of a buffer before any difference was found;
  \<open>deen_keywords_has_prefix\<close> never gets there, since the terminating NUL of a stored
  keyword differs from every byte of a token.
\<close>

fun memcmp_c :: "string \<Rightarrow> string \<Rightarrow> nat \<Rightarrow> int" where
  "memcmp_c a b 0 = 0"
| "memcmp_c (x # xs) (y # ys) (Suc n) =
     (if x = y then memcmp_c xs ys n else if x < y then - 1 else 1)"
| "memcmp_c a b (Suc n) = 1"

text \<open>
  \<open>strstr\<close> on the contents of two C strings: the offset of the first occurrence of the
  needle, \<open>None\<close> for the null pointer.
\<close>

fun strstr_c :: "string \<Rightarrow> string \<Rightarrow> nat option" where
  "strstr_c [] needle = (if needle = [] then Some 0 else None)"
| "strstr_c (x # xs) needle =
     (if prefix needle (x # xs) then Some 0
      else (case strstr_c xs needle of None \<Rightarrow> None | Some k \<Rightarrow> Some (Suc k)))"

text \<open>
  \<open>qsort\<close> with a comparator that may leave the program (\<open>Inl\<close>): an insertion sort. The
  comparators of this program return 0 only on equal strings, so every sorting algorithm
  gives the same array; with two elements or more, every element is compared at least
  once, as in every comparison sort.
\<close>

fun qsort_insert :: "('a \<Rightarrow> 'a \<Rightarrow> 'e + int) \<Rightarrow> 'a \<Rightarrow> 'a list \<Rightarrow> 'e + 'a list" where
  "qsort_insert cmp x [] = Inr [x]"
| "qsort_insert cmp x (y # ys) =
     (case cmp x y of
        Inl e \<Rightarrow> Inl e
      | Inr c \<Rightarrow>
          if c \<le> 0 then Inr (x # y # ys)
          else (case qsort_insert cmp x ys of Inl e \<Rightarrow> Inl e | Inr zs \<Rightarrow> Inr (y # zs)))"

fun qsort_c :: "('a \<Rightarrow> 'a \<Rightarrow> 'e + int) \<Rightarrow> 'a list \<Rightarrow> 'e + 'a list" where
  "qsort_c cmp [] = Inr []"
| "qsort_c cmp (x # xs) =
     (case qsort_c cmp xs of Inl e \<Rightarrow> Inl e | Inr ys \<Rightarrow> qsort_insert cmp x ys)"

text \<open>
  \<open>bsearch\<close>: a binary search with the comparator of \<open>deen_index_prefix_compare\<close>; true
  when an element comparing equal was found.
\<close>

function bsearch_c :: "string \<Rightarrow> string list \<Rightarrow> bool" where
  "bsearch_c key xs =
     (if xs = [] then False
      else let mid = length xs div 2; c = strcmp_c key (xs ! mid)
           in if c = 0 then True
              else if c < 0 then bsearch_c key (take mid xs)
              else bsearch_c key (drop (Suc mid) xs))"
  by pat_completeness auto
termination
  by (relation "measure (\<lambda>(key, xs). length xs)") auto

declare bsearch_c.simps [simp del]

section \<open>Text primitives of common.c\<close>

text \<open>
  Only the declarations of common.h are among the sources. The case folding and the
  common-word test are parameters of the functions that call them (\<open>to_upper\<close>,
  \<open>is_common\<close>); the UTF-8 functions and the case-insensitive search are modelled from
  the specification.
\<close>

datatype deen_exit = EXIT_BAD_SEQUENCE | EXIT_INCOMPLETE_SEQUENCE | NULL_CALL

datatype deen_utf8_sequence_result =
  DEEN_SEQUENCE_OK nat | DEEN_BAD_SEQUENCE | DEEN_INCOMPLETE_SEQUENCE

text \<open>
  Modelled from the spec: \<open>deen_utf8_sequence_len\<close> of common.c (not among the sources).
  "Returns 1, 2, 3, or 4 for a valid leading byte with enough trailing bytes; fails with
  BadSequence if the leading byte is a continuation byte or an illegal value, or
  IncompleteSequence if insufficient bytes remain."
\<close>

definition utf8_lead_len :: "char \<Rightarrow> nat option" where
  "utf8_lead_len c =
     (let n = (of_char c :: nat) in
      if n < 0x80 then Some 1
      else if n < 0xC0 then None
      else if n < 0xE0 then Some 2
      else if n < 0xF0 then Some 3
      else if n < 0xF8 then Some 4
      else None)"

definition deen_utf8_sequence_len :: "string \<Rightarrow> deen_utf8_sequence_result" where
  "deen_utf8_sequence_len c =
     (case c of
        [] \<Rightarrow> DEEN_INCOMPLETE_SEQUENCE
      | b # rest \<Rightarrow>
          (case utf8_lead_len b of
             None \<Rightarrow> DEEN_BAD_SEQUENCE
           | Some k \<Rightarrow> if k \<le> length c then DEEN_SEQUENCE_OK k else DEEN_INCOMPLETE_SEQUENCE))"

text \<open>
  Modelled from the spec: \<open>deen_utf8_sequences_count\<close> of common.c. "Count sequences in
  buffer: repeated application of the above; same failure modes."
\<close>

function deen_utf8_sequences_count :: "string \<Rightarrow> deen_utf8_sequence_result" where
  "deen_utf8_sequences_count c =
     (if c = [] then DEEN_SEQUENCE_OK 0
      else (case deen_utf8_sequence_len c of
              DEEN_SEQUENCE_OK k \<Rightarrow>
                (if k = 0 then DEEN_BAD_SEQUENCE
                 else (case deen_utf8_sequences_count (drop k c) of
                         DEEN_SEQUENCE_OK n \<Rightarrow> DEEN_SEQUENCE_OK (Suc n)
                       | r \<Rightarrow> r))
            | r \<Rightarrow> r))"
  by pat_completeness auto
termination
  by (relation "measure length") auto

declare deen_utf8_sequences_count.simps [simp del]

text \<open>
  Modelled from the spec: \<open>deen_utf8_crop_to_unicode_len\<close> of common.c. "Truncates a UTF-8
  buffer in place so that it contains exactly min(N, total_chars) code points; returns the
  resulting code-point count." An encoding error met while cropping is fatal (section 7 of
  the specification).
\<close>

function deen_utf8_crop_to_unicode_len :: "string \<Rightarrow> nat \<Rightarrow> deen_exit + string \<times> nat" where
  "deen_utf8_crop_to_unicode_len c unicode_length =
     (if c = [] \<or> unicode_length = 0 then Inr ([], 0)
      else (case deen_utf8_sequence_len c of
              DEEN_SEQUENCE_OK k \<Rightarrow>
                (if k = 0 then Inl EXIT_BAD_SEQUENCE
                 else (case deen_utf8_crop_to_unicode_len (drop k c) (unicode_length - 1) of
                         Inl e \<Rightarrow> Inl e
                       | Inr (rest, n) \<Rightarrow> Inr (take k c @ rest, Suc n)))
            | DEEN_BAD_SEQUENCE \<Rightarrow> Inl EXIT_BAD_SEQUENCE
            | DEEN_INCOMPLETE_SEQUENCE \<Rightarrow> Inl EXIT_INCOMPLETE_SEQUENCE))"
  by pat_completeness auto
termination
  by (relation "measure (\<lambda>(c, n). length c)") auto

declare deen_utf8_crop_to_unicode_len.simps [simp del]

text \<open>
  Modelled from the spec: \<open>deen_imatches_at\<close> and \<open>deen_ifind_first\<close> of common.c.
  "Searches buffer s[from..to) for the first occurrence of needle f, comparing
  byte-by-byte after uppercasing each byte of s; returns an absolute offset or a sentinel
  NOT_FOUND. (Needle is assumed already upper-case.)" \<open>None\<close> is \<open>DEEN_NOT_FOUND\<close>.
\<close>

definition deen_imatches_at :: "string \<Rightarrow> string \<Rightarrow> nat \<Rightarrow> bool" where
  "deen_imatches_at s f pos = prefix f (map toupper_c (drop pos s))"

definition deen_ifind_first :: "string \<Rightarrow> string \<Rightarrow> nat \<Rightarrow> nat \<Rightarrow> nat option" where
  "deen_ifind_first s f from to = find (\<lambda>i. deen_imatches_at s f i) [from..<to]"

text \<open>
  Modelled from the spec: \<open>deen_to_upper\<close> of common.c, as far as the specification names
  the letters: "US-ASCII a-z becomes A-Z. Recognized two-byte German letters map to
  their upper-case UTF-8 counterparts; sharp s is left unchanged. All other code points
  unchanged." It instantiates the parameter \<open>to_upper\<close> where a concrete run is evaluated.
\<close>

fun deen_to_upper :: "string \<Rightarrow> string" where
  "deen_to_upper (a # b # rest) =
     (if a = CHR 0xC3 \<and> b \<in> {CHR 0xA4, CHR 0xB6, CHR 0xBC, CHR 0xAF, CHR 0xAB}
      then a # char_of (of_char b - (32::nat)) # deen_to_upper rest
      else toupper_c a # deen_to_upper (b # rest))"
| "deen_to_upper [a] = [toupper_c a]"
| "deen_to_upper [] = []"

section \<open>keyword.c\<close>

type_synonym deen_keywords = "string list"

definition deen_keywords_sequence_count_or_exit :: "string \<Rightarrow> deen_exit + nat" where
  "deen_keywords_sequence_count_or_exit c =
     (case deen_utf8_sequences_count c of
        DEEN_SEQUENCE_OK n \<Rightarrow> Inr n
      | DEEN_BAD_SEQUENCE \<Rightarrow> Inl EXIT_BAD_SEQUENCE
      | DEEN_INCOMPLETE_SEQUENCE \<Rightarrow> Inl EXIT_INCOMPLETE_SEQUENCE)"

definition deen_keywords_compare_length :: "string \<Rightarrow> string \<Rightarrow> deen_exit + int" where
  "deen_keywords_compare_length c1 c2 =
     (case deen_keywords_sequence_count_or_exit c1 of
        Inl e \<Rightarrow> Inl e
      | Inr sequence_count_1 \<Rightarrow>
          (case deen_keywords_sequence_count_or_exit c2 of
             Inl e \<Rightarrow> Inl e
           | Inr sequence_count_2 \<Rightarrow>
               if sequence_count_1 = sequence_count_2 then Inr (strcmp_c c1 c2)
               else if sequence_count_1 < sequence_count_2 then Inr 1
               else Inr (- 1)))"

definition deen_keywords_create :: deen_keywords where
  "deen_keywords_create = []"

text \<open>
  The stored keyword is the buffer \<open>k @ [NUL]\<close>; \<open>prefix_len\<close> is the length of the
  token.
\<close>

fun deen_keywords_has_prefix :: "deen_keywords \<Rightarrow> string \<Rightarrow> bool" where
  "deen_keywords_has_prefix [] pre = False"
| "deen_keywords_has_prefix (k # ks) pre =
     (if memcmp_c (k @ [NUL]) pre (length pre) = 0 then True
      else deen_keywords_has_prefix ks pre)"

text \<open>
  The scanning loop of \<open>deen_keywords_add_from_string\<close>; \<open>rest\<close> is the input from index
  \<open>i\<close> on. One round skips the white space, takes the token up to the next white space
  and appends it unless it is empty, a common word or found by
  \<open>deen_keywords_has_prefix\<close>.
\<close>

function deen_keywords_add_tokens ::
  "(string \<Rightarrow> bool) \<Rightarrow> deen_keywords \<Rightarrow> string \<Rightarrow> deen_keywords" where
  "deen_keywords_add_tokens is_common keywords rest =
     (if rest = [] then keywords
      else let after_space = dropWhile isspace_c rest;
               token = takeWhile (\<lambda>c. \<not> isspace_c c) after_space;
               after_token = dropWhile (\<lambda>c. \<not> isspace_c c) after_space
           in deen_keywords_add_tokens is_common
                (if token \<noteq> [] \<and> \<not> is_common token \<and> \<not> deen_keywords_has_prefix keywords token
                 then keywords @ [token] else keywords)
                after_token)"
  by pat_completeness auto
termination
proof (relation "measure (\<lambda>(is_common, keywords, rest). length rest)")
  show "wf (measure (\<lambda>(is_common, keywords, rest). length rest))"
    by simp
next
  fix is_common :: "string \<Rightarrow> bool" and kws :: deen_keywords and rest :: string
    and after_space token after_token
  assume ne: "rest \<noteq> []"
    and a: "after_space = dropWhile isspace_c rest"
    and t: "after_token = dropWhile (\<lambda>c. \<not> isspace_c c) after_space"
  obtain x xs where rest: "rest = x # xs"
    using ne by (cases rest) auto
  have "length after_token \<le> length xs"
  proof (cases "isspace_c x")
    case True
    then have "length after_space \<le> length xs"
      using a rest by (simp add: length_dropWhile_le)
    moreover have "length after_token \<le> length after_space"
      using t by (simp add: length_dropWhile_le)
    ultimately show ?thesis by simp
  next
    case False
    then have "after_token = dropWhile (\<lambda>c. \<not> isspace_c c) xs"
      using a t rest by simp
    then show ?thesis by (simp add: length_dropWhile_le)
  qed
  then show "((is_common,
               if token \<noteq> [] \<and> \<not> is_common token \<and> \<not> deen_keywords_has_prefix kws token
               then kws @ [token] else kws,
               after_token), is_common, kws, rest)
             \<in> measure (\<lambda>(is_common, keywords, rest). length rest)"
    using rest by simp
qed

declare deen_keywords_add_tokens.simps [simp del]

text \<open>
  \<open>deen_keywords_add_from_string\<close>: the input is upper-cased in place, scanned up to its
  terminator, and the array is sorted. \<open>Inl\<close> is \<open>deen_log_error_and_exit\<close> in the
  comparator.
\<close>

definition deen_keywords_add_from_string ::
  "(string \<Rightarrow> string) \<Rightarrow> (string \<Rightarrow> bool) \<Rightarrow> deen_keywords \<Rightarrow> string \<Rightarrow> deen_exit + deen_keywords" where
  "deen_keywords_add_from_string to_upper is_common keywords input =
     qsort_c deen_keywords_compare_length
       (deen_keywords_add_tokens is_common keywords (c_str (to_upper input)))"

fun deen_keywords_longest_keyword :: "deen_keywords \<Rightarrow> nat" where
  "deen_keywords_longest_keyword [] = 0"
| "deen_keywords_longest_keyword (k # ks) = max (length k) (deen_keywords_longest_keyword ks)"

text \<open>The search runs over \<open>[0, strlen input)\<close>.\<close>

fun deen_keywords_all_present :: "deen_keywords \<Rightarrow> string \<Rightarrow> bool" where
  "deen_keywords_all_present [] input = True"
| "deen_keywords_all_present (k # ks) input =
     (if deen_ifind_first input k 0 (length input) = None then False
      else deen_keywords_all_present ks input)"

text \<open>
  The loop of \<open>deen_keywords_single_substitute_german_usascii_abbreviations\<close>: \<open>str\<close> is
  the keyword, \<open>pos\<close> the offset the pointer has reached, \<open>result\<close> the flag so far.
  \<open>strstr\<close> searches from \<open>pos\<close>; \<open>memcpy\<close> overwrites the two bytes found and the
  pointer moves one byte past the place found. With an empty needle the C loop would walk
  past the terminator; the model stops there, and no caller passes one.
\<close>

function deen_keywords_single_substitute ::
  "string \<Rightarrow> nat \<Rightarrow> bool \<Rightarrow> string \<Rightarrow> string \<Rightarrow> bool \<times> string" where
  "deen_keywords_single_substitute str pos result search replace =
     (case strstr_c (drop pos str) search of
        None \<Rightarrow> (result, str)
      | Some k \<Rightarrow>
          if length str \<le> pos + k then (result, str)
          else deen_keywords_single_substitute
                 (str[pos + k := replace ! 0, pos + k + 1 := replace ! 1])
                 (pos + k + 1) True search replace)"
  by pat_completeness auto
termination
  by (relation "measure (\<lambda>(str, pos, result, search, replace). length str - pos)") auto

declare deen_keywords_single_substitute.simps [simp del]

text \<open>
  \<open>deen_keywords_substitute_german_usascii_abbreviations\<close>: the six passes in the order
  of the source (EE, UE, OE, AE, IE, SS), each on the result of the one before; the flags
  are joined with \<open>|\<close>, so every pass runs.
\<close>

definition s_Ee :: string where "s_Ee = ''EE''"
definition s_Ue :: string where "s_Ue = ''UE''"
definition s_Oe :: string where "s_Oe = ''OE''"
definition s_Ae :: string where "s_Ae = ''AE''"
definition s_Ie :: string where "s_Ie = ''IE''"
definition s_ss :: string where "s_ss = ''SS''"

definition r_Ee :: string where "r_Ee = [CHR 0xC3, CHR 0x8B]"
definition r_Ue :: string where "r_Ue = [CHR 0xC3, CHR 0x9C]"
definition r_Oe :: string where "r_Oe = [CHR 0xC3, CHR 0x96]"
definition r_Ae :: string where "r_Ae = [CHR 0xC3, CHR 0x84]"
definition r_Ie :: string where "r_Ie = [CHR 0xC3, CHR 0x8F]"
definition r_ss :: string where "r_ss = [CHR 0xC3, CHR 0x9F]"

definition deen_keywords_substitute_german_usascii_abbreviations :: "string \<Rightarrow> bool \<times> string" where
  "deen_keywords_substitute_german_usascii_abbreviations v0 =
     (let adjusted = False;
          (b1, v1) = deen_keywords_single_substitute v0 0 False s_Ee r_Ee;
          adjusted = (adjusted \<or> b1);
          (b2, v2) = deen_keywords_single_substitute v1 0 False s_Ue r_Ue;
          adjusted = (adjusted \<or> b2);
          (b3, v3) = deen_keywords_single_substitute v2 0 False s_Oe r_Oe;
          adjusted = (adjusted \<or> b3);
          (b4, v4) = deen_keywords_single_substitute v3 0 False s_Ae r_Ae;
          adjusted = (adjusted \<or> b4);
          (b5, v5) = deen_keywords_single_substitute v4 0 False s_Ie r_Ie;
          adjusted = (adjusted \<or> b5);
          (b6, v6) = deen_keywords_single_substitute v5 0 False s_ss r_ss;
          adjusted = (adjusted \<or> b6)
      in (adjusted, v6))"

text \<open>\<open>deen_keywords_adjust\<close>: the flag and the keywords after the loop.\<close>

fun deen_keywords_adjust_loop :: "deen_keywords \<Rightarrow> bool \<Rightarrow> bool \<times> deen_keywords" where
  "deen_keywords_adjust_loop [] adjusted = (adjusted, [])"
| "deen_keywords_adjust_loop (k # ks) adjusted =
     (let (b, k') = deen_keywords_substitute_german_usascii_abbreviations k;
          (adjusted', ks') = deen_keywords_adjust_loop ks (adjusted \<or> b)
      in (adjusted', k' # ks'))"

definition deen_keywords_adjust :: "deen_keywords \<Rightarrow> bool \<times> deen_keywords" where
  "deen_keywords_adjust keywords = deen_keywords_adjust_loop keywords False"

section \<open>install.c\<close>

subsection \<open>The format check\<close>








subsection \<open>What the installer works on\<close>

datatype deen_install_state =
  DEEN_INSTALL_STATE_IDLE
| DEEN_INSTALL_STATE_STARTING
| DEEN_INSTALL_STATE_INDEXING
| DEEN_INSTALL_STATE_COMPLETED
| DEEN_INSTALL_STATE_ERROR

text \<open>
  constants.h and common.c are not among the sources: the constants and the text
  primitives \<open>deen_index_callback\<close> uses are the fields of an environment. \<open>env_percent\<close>
  stands for the conversion \<open>(uint8_t) (x * 100.0)\<close> of a progress value.
\<close>

record deen_env =
  env_to_upper :: "string \<Rightarrow> string"
  env_is_common_upper_word :: "string \<Rightarrow> bool"
  DEEN_INDEXING_MIN :: nat
  DEEN_INDEXING_DEPTH :: nat
  env_percent :: "real \<Rightarrow> nat"
  DEEN_CAUSE_ERROR_IN_INSTALL :: bool

text \<open>
  The callbacks are function pointers, \<open>None\<close> for \<open>NULL\<close>. What a callback does is
  recorded in the world: a call of the progress callback is appended to
  \<open>progress_calls\<close> (its result is ignored by every caller); the cancellation callback
  answers its \<open>n\<close>-th call, counted from 0 in \<open>cancel_polls\<close>, with any answer it likes.
  The world also holds the batches handed to \<open>deen_index_add\<close> and whether the data
  file and the index file exist under the root directory.
\<close>

type_synonym deen_install_progress_cb = "deen_install_state \<Rightarrow> real \<Rightarrow> bool"

type_synonym deen_is_cancelled_cb = "nat \<Rightarrow> bool"

record deen_world =
  cancel_polls :: nat
  progress_calls :: "(deen_install_state \<times> real) list"
  index_rows :: "(nat \<times> string list) list"
  data_file :: bool
  index_file :: bool

text \<open>
  \<open>struct deen_index_context\<close>, without the upper-casing buffer and the allocation
  counters; \<open>prefixes\<close> are the first \<open>prefix_count\<close> entries of the array.
\<close>

record deen_index_context =
  is_cancelled_cb :: "deen_is_cancelled_cb option"
  lastprogress :: real
  progress_cb :: "deen_install_progress_cb option"
  current_ref :: nat
  prefixes :: "string list"

text \<open>Sequencing of steps that may leave the program.\<close>

definition and_then :: "'e + 'a \<Rightarrow> ('a \<Rightarrow> 'e + 'b) \<Rightarrow> 'e + 'b" where
  "and_then m f = (case m of Inl e \<Rightarrow> Inl e | Inr x \<Rightarrow> f x)"

text \<open>A call through a function pointer; through \<open>NULL\<close> it ends the program.\<close>

definition call_progress_cb ::
  "deen_install_progress_cb option \<Rightarrow> deen_install_state \<Rightarrow> real \<Rightarrow> deen_world
     \<Rightarrow> deen_exit + deen_world" where
  "call_progress_cb cb state progress w =
     (case cb of
        None \<Rightarrow> Inl NULL_CALL
      | Some f \<Rightarrow> Inr (w\<lparr>progress_calls := progress_calls w @ [(state, progress)]\<rparr>))"

definition call_is_cancelled_cb ::
  "deen_is_cancelled_cb option \<Rightarrow> deen_world \<Rightarrow> deen_exit + bool \<times> deen_world" where
  "call_is_cancelled_cb cb w =
     (case cb of
        None \<Rightarrow> Inl NULL_CALL
      | Some f \<Rightarrow> Inr (f (cancel_polls w), w\<lparr>cancel_polls := Suc (cancel_polls w)\<rparr>))"

subsection \<open>The prefix bag and the word callback\<close>

definition deen_index_prefix_compare :: "string \<Rightarrow> string \<Rightarrow> deen_exit + int" where
  "deen_index_prefix_compare a b = Inr (strcmp_c a b)"

definition deen_index_add_prefix_to_context ::
  "deen_index_context \<Rightarrow> string \<Rightarrow> deen_exit + deen_index_context" where
  "deen_index_add_prefix_to_context ctx s =
     and_then (qsort_c deen_index_prefix_compare (prefixes ctx @ [s]))
       (\<lambda>sorted_prefixes. Inr (ctx\<lparr>prefixes := sorted_prefixes\<rparr>))"

definition deen_index_add_prefix_to_context_if_not_present ::
  "deen_index_context \<Rightarrow> string \<Rightarrow> deen_exit + deen_index_context" where
  "deen_index_add_prefix_to_context_if_not_present ctx s =
     (if prefixes ctx = [] \<or> \<not> bsearch_c s (prefixes ctx)
      then deen_index_add_prefix_to_context ctx s
      else Inr ctx)"

text \<open>
  Modelled from the spec: \<open>deen_index_add\<close> of index.c (not among the sources) "inserts one
  (prefix_id, ref) row per given prefix"; the world records the batch.
\<close>

definition deen_index_add :: "deen_world \<Rightarrow> nat \<Rightarrow> string list \<Rightarrow> deen_world" where
  "deen_index_add w ref ps = w\<lparr>index_rows := index_rows w @ [(ref, ps)]\<rparr>"

definition deen_index_flush_context_prefixes_to_index ::
  "deen_index_context \<times> deen_world \<Rightarrow> deen_index_context \<times> deen_world" where
  "deen_index_flush_context_prefixes_to_index cw =
     (case cw of (ctx, w) \<Rightarrow>
        if prefixes ctx \<noteq> []
        then (ctx\<lparr>prefixes := []\<rparr>, deen_index_add w (current_ref ctx) (prefixes ctx))
        else (ctx, w))"

text \<open>
  \<open>deen_index_callback\<close> for the word \<open>s\<close> (\<open>len\<close> is its length), in its two parts.
  The first part runs when the ref has changed: the bag of the old ref is flushed, and
  the progress callback is called when the percentage differs from the last one
  reported. The second part is the block under \<open>if (len >= DEEN_INDEXING_MIN)\<close>. The
  result is the flag the tokenizer gets back, with the context and the world as the call
  leaves them.
\<close>

definition deen_index_callback_new_ref ::
  "deen_env \<Rightarrow> nat \<Rightarrow> real \<Rightarrow> deen_index_context \<times> deen_world
     \<Rightarrow> deen_exit + deen_index_context \<times> deen_world" where
  "deen_index_callback_new_ref env ref progress cw =
     (if current_ref (fst cw) \<noteq> ref then
        (case deen_index_flush_context_prefixes_to_index cw of (ctx, w) \<Rightarrow>
           let ctx = ctx\<lparr>current_ref := ref\<rparr>;
               last_percent = env_percent env (lastprogress ctx);
               percent = env_percent env progress
           in if percent \<noteq> last_percent then
                and_then (call_progress_cb (progress_cb ctx) DEEN_INSTALL_STATE_INDEXING progress w)
                  (\<lambda>w. Inr (ctx\<lparr>lastprogress := progress\<rparr>, w))
              else Inr (ctx, w))
      else Inr cw)"

definition deen_index_callback_word ::
  "deen_env \<Rightarrow> string \<Rightarrow> deen_index_context \<times> deen_world
     \<Rightarrow> deen_exit + bool \<times> deen_index_context \<times> deen_world" where
  "deen_index_callback_word env s cw =
     (case cw of (ctx, w) \<Rightarrow>
        if DEEN_INDEXING_MIN env \<le> length s then
          and_then (call_is_cancelled_cb (is_cancelled_cb ctx) w)
            (\<lambda>(cancelled, w).
               if cancelled then Inr (False, ctx, w)
               else
                 (let c_buffer_upper = env_to_upper env s in
                  if \<not> env_is_common_upper_word env c_buffer_upper then
                    and_then (deen_utf8_crop_to_unicode_len c_buffer_upper (DEEN_INDEXING_DEPTH env))
                      (\<lambda>(cropped, unicode_length).
                         if DEEN_INDEXING_MIN env \<le> unicode_length then
                           and_then (deen_index_add_prefix_to_context_if_not_present ctx (c_str cropped))
                             (\<lambda>ctx. Inr (True, ctx, w))
                         else Inr (True, ctx, w))
                  else Inr (True, ctx, w)))
        else Inr (True, ctx, w))"

definition deen_index_callback ::
  "deen_env \<Rightarrow> string \<Rightarrow> nat \<Rightarrow> real \<Rightarrow> deen_index_context \<times> deen_world
     \<Rightarrow> deen_exit + bool \<times> deen_index_context \<times> deen_world" where
  "deen_index_callback env s ref progress cw =
     and_then (deen_index_callback_new_ref env ref progress cw) (deen_index_callback_word env s)"

definition deen_noop_is_cancelled_cb :: deen_is_cancelled_cb where
  "deen_noop_is_cancelled_cb n = False"

definition deen_noop_install_progress_cb :: deen_install_progress_cb where
  "deen_noop_install_progress_cb state progress = True"

subsection \<open>The installation\<close>

text \<open>
  Modelled from the spec: \<open>deen_for_each_word_from_file\<close> of common.c. "For each word it
  invokes the callback with (bytes, length, ref, progress). The callback may return false
  to stop; the function then returns false." The words are those the tokenizer delivers
  for the file, \<open>read_ok\<close> says whether reading it went well.
\<close>

type_synonym deen_word = "string \<times> nat \<times> real"

fun deen_for_each_word_from_file ::
  "(deen_word \<Rightarrow> 's \<Rightarrow> deen_exit + bool \<times> 's) \<Rightarrow> deen_word list \<Rightarrow> bool \<Rightarrow> 's
     \<Rightarrow> deen_exit + bool \<times> 's" where
  "deen_for_each_word_from_file process_callback [] read_ok st = Inr (read_ok, st)"
| "deen_for_each_word_from_file process_callback (wd # wds) read_ok st =
     and_then (process_callback wd st)
       (\<lambda>(continue, st).
          if continue then deen_for_each_word_from_file process_callback wds read_ok st
          else Inr (False, st))"

text \<open>
  What the operating system and sqlite answer during one installation: whether the
  source opens, the destination opens, every \<open>write\<close> is complete, the database opens,
  the copied data file opens, a \<open>remove\<close> succeeds; and the words of the data file.
\<close>

record deen_sys =
  src_open_ok :: bool
  dest_open_ok :: bool
  copy_write_ok :: bool
  db_open_ok :: bool
  data_open_ok :: bool
  remove_ok :: bool
  ding_words :: "deen_word list"
  ding_read_ok :: bool

definition remove_data_file :: "deen_sys \<Rightarrow> deen_world \<Rightarrow> bool \<times> deen_world" where
  "remove_data_file sys w =
     (if data_file w then (if remove_ok sys then (True, w\<lparr>data_file := False\<rparr>) else (False, w))
      else (True, w))"

definition remove_index_file :: "deen_sys \<Rightarrow> deen_world \<Rightarrow> bool \<times> deen_world" where
  "remove_index_file sys w =
     (if index_file w then (if remove_ok sys then (True, w\<lparr>index_file := False\<rparr>) else (False, w))
      else (True, w))"

text \<open>
  \<open>deen_install_init\<close>, whose result the caller ignores: the old index and the old data
  file are removed, the data file only if removing the index went well. (When the root
  directory cannot be made, neither file exists.)
\<close>

definition deen_install_init :: "deen_sys \<Rightarrow> deen_world \<Rightarrow> deen_world" where
  "deen_install_init sys w =
     (case remove_index_file sys w of
        (removed, w) \<Rightarrow> if \<not> removed then w else snd (remove_data_file sys w))"

text \<open>
  The macro \<open>DEEN_INSTALL_RAISE_ERROR\<close> (the new value of \<open>is_error\<close> is \<open>True\<close>), and the
  condition \<open>!is_error && !is_cancelled_cb(process_cb_context)\<close> of the five blocks, which
  polls only when there is no error.
\<close>

definition deen_install_raise_error ::
  "deen_install_progress_cb option \<Rightarrow> deen_world \<Rightarrow> deen_exit + bool \<times> deen_world" where
  "deen_install_raise_error progress_f w =
     and_then (call_progress_cb progress_f DEEN_INSTALL_STATE_ERROR 0 w) (\<lambda>w. Inr (True, w))"

definition deen_install_may_proceed ::
  "deen_is_cancelled_cb option \<Rightarrow> bool \<Rightarrow> deen_world \<Rightarrow> deen_exit + bool \<times> deen_world" where
  "deen_install_may_proceed is_cancelled_f is_error w =
     (if is_error then Inr (False, w)
      else and_then (call_is_cancelled_cb is_cancelled_f w)
             (\<lambda>(cancelled, w). Inr (\<not> cancelled, w)))"

text \<open>The blocks of \<open>deen_install_from_path\<close>, in the order of the source.\<close>

definition deen_install_copy ::
  "deen_sys \<Rightarrow> deen_install_progress_cb option \<Rightarrow> deen_is_cancelled_cb option
     \<Rightarrow> bool \<times> deen_world \<Rightarrow> deen_exit + bool \<times> deen_world" where
  "deen_install_copy sys progress_f is_cancelled_f ew =
     (case ew of (is_error, w) \<Rightarrow>
        and_then (deen_install_may_proceed is_cancelled_f is_error w)
          (\<lambda>(proceed, w).
             if \<not> proceed then Inr (is_error, w)
             else if \<not> src_open_ok sys then deen_install_raise_error progress_f w
             else if \<not> dest_open_ok sys then deen_install_raise_error progress_f w
             else (let w = w\<lparr>data_file := True\<rparr>
                   in if \<not> copy_write_ok sys then deen_install_raise_error progress_f w
                      else Inr (is_error, w))))"

definition deen_install_open_db ::
  "deen_sys \<Rightarrow> deen_install_progress_cb option \<Rightarrow> deen_is_cancelled_cb option
     \<Rightarrow> bool \<times> deen_world \<Rightarrow> deen_exit + bool \<times> bool \<times> deen_world" where
  "deen_install_open_db sys progress_f is_cancelled_f ew =
     (case ew of (is_error, w) \<Rightarrow>
        and_then (deen_install_may_proceed is_cancelled_f is_error w)
          (\<lambda>(proceed, w).
             if \<not> proceed then Inr (is_error, False, w)
             else if \<not> db_open_ok sys then
               and_then (deen_install_raise_error progress_f w) (\<lambda>(is_error, w). Inr (is_error, False, w))
             else Inr (is_error, True, w)))"

text \<open>\<open>deen_index_init\<close> writes the schema, which creates the index file of an open database.\<close>

definition deen_install_index_init ::
  "deen_is_cancelled_cb option \<Rightarrow> bool \<Rightarrow> bool \<times> deen_world \<Rightarrow> deen_exit + bool \<times> deen_world" where
  "deen_install_index_init is_cancelled_f db ew =
     (case ew of (is_error, w) \<Rightarrow>
        and_then (deen_install_may_proceed is_cancelled_f is_error w)
          (\<lambda>(proceed, w).
             if \<not> proceed then Inr (is_error, w)
             else Inr (is_error, w\<lparr>index_file := index_file w \<or> db\<rparr>)))"

definition deen_install_open_data ::
  "deen_env \<Rightarrow> deen_sys \<Rightarrow> deen_install_progress_cb option \<Rightarrow> deen_is_cancelled_cb option
     \<Rightarrow> bool \<times> deen_world \<Rightarrow> deen_exit + bool \<times> bool \<times> deen_world" where
  "deen_install_open_data env sys progress_f is_cancelled_f ew =
     (case ew of (is_error, w) \<Rightarrow>
        and_then (deen_install_may_proceed is_cancelled_f is_error w)
          (\<lambda>(proceed, w).
             if \<not> proceed then Inr (is_error, False, w)
             else (let fd_data = (data_file w \<and> data_open_ok sys)
                   in if \<not> fd_data \<or> DEEN_CAUSE_ERROR_IN_INSTALL env then
                        and_then (deen_install_raise_error progress_f w)
                          (\<lambda>(is_error, w). Inr (is_error, fd_data, w))
                      else Inr (is_error, fd_data, w))))"

definition deen_install_index ::
  "deen_env \<Rightarrow> deen_sys \<Rightarrow> deen_install_progress_cb option \<Rightarrow> deen_is_cancelled_cb option
     \<Rightarrow> bool \<Rightarrow> bool \<times> deen_world \<Rightarrow> deen_exit + bool \<times> deen_world" where
  "deen_install_index env sys progress_f is_cancelled_f fd_data ew =
     (case ew of (is_error, w) \<Rightarrow>
        and_then (deen_install_may_proceed is_cancelled_f is_error w)
          (\<lambda>(proceed, w).
             if \<not> proceed then Inr (is_error, w)
             else
               (let index_context =
                      \<lparr>is_cancelled_cb = is_cancelled_f, lastprogress = - 1,
                       progress_cb = progress_f, current_ref = 0, prefixes = []\<rparr>
                in and_then
                     (deen_for_each_word_from_file
                        (\<lambda>(s, ref, progress). deen_index_callback env s ref progress)
                        (if fd_data then ding_words sys else [])
                        (fd_data \<and> ding_read_ok sys)
                        (index_context, w))
                     (\<lambda>(processed, index_context, w).
                        and_then
                          (if \<not> processed then deen_install_raise_error progress_f w
                           else Inr (is_error, w))
                          (\<lambda>(is_error, w).
                             Inr (is_error,
                                  snd (deen_index_flush_context_prefixes_to_index (index_context, w))))))))"

text \<open>
  The clean-up \<open>if (is_error || is_cancelled_cb(...))\<close> and the final report; the result of
  the function is \<open>!is_error\<close>.
\<close>

definition deen_install_cleanup ::
  "deen_sys \<Rightarrow> deen_is_cancelled_cb option \<Rightarrow> bool \<times> deen_world \<Rightarrow> deen_exit + deen_world" where
  "deen_install_cleanup sys is_cancelled_f ew =
     (case ew of (is_error, w) \<Rightarrow>
        and_then
          (if is_error then Inr (True, w) else call_is_cancelled_cb is_cancelled_f w)
          (\<lambda>(clean, w).
             if clean then Inr (snd (remove_index_file sys (snd (remove_data_file sys w))))
             else Inr w))"

definition deen_install_report ::
  "deen_install_progress_cb option \<Rightarrow> deen_is_cancelled_cb option \<Rightarrow> bool \<Rightarrow> deen_world
     \<Rightarrow> deen_exit + deen_world" where
  "deen_install_report progress_f is_cancelled_f is_error w =
     (if \<not> is_error then call_progress_cb progress_f DEEN_INSTALL_STATE_COMPLETED 1 w
      else and_then (call_is_cancelled_cb is_cancelled_f w)
             (\<lambda>(cancelled, w).
                if cancelled then call_progress_cb progress_f DEEN_INSTALL_STATE_IDLE 0 w
                else Inr w))"

definition deen_install_from_path ::
  "deen_env \<Rightarrow> deen_sys \<Rightarrow> deen_install_progress_cb option \<Rightarrow> deen_is_cancelled_cb option
     \<Rightarrow> deen_world \<Rightarrow> deen_exit + bool \<times> deen_world" where
  "deen_install_from_path env sys progress_cb_arg is_cancelled_cb_arg w =
     (let progress_f =
            (case progress_cb_arg of None \<Rightarrow> Some deen_noop_install_progress_cb | Some f \<Rightarrow> Some f);
          is_cancelled_f =
            (case is_cancelled_cb_arg of None \<Rightarrow> Some deen_noop_is_cancelled_cb | Some f \<Rightarrow> Some f)
      in
      and_then (call_progress_cb progress_f DEEN_INSTALL_STATE_STARTING 0 w) (\<lambda>w.
      and_then (deen_install_copy sys progress_f is_cancelled_f (False, deen_install_init sys w))
        (\<lambda>(is_error, w).
      and_then (deen_install_open_db sys progress_f is_cancelled_f (is_error, w))
        (\<lambda>(is_error, db, w).
      and_then (deen_install_index_init is_cancelled_f db (is_error, w))
        (\<lambda>(is_error, w).
      and_then (deen_install_open_data env sys progress_f is_cancelled_f (is_error, w))
        (\<lambda>(is_error, fd_data, w).
      and_then (deen_install_index env sys progress_f is_cancelled_f fd_data (is_error, w))
        (\<lambda>(is_error, w).
      and_then (deen_install_cleanup sys is_cancelled_f (is_error, w))
        (\<lambda>w.
      and_then (deen_install_report progress_f is_cancelled_f is_error w)
        (\<lambda>w. Inr (\<not> is_error, w))))))))))"

section \<open>Notions the statements use\<close>

text \<open>
  Modelled from the spec: the common-word set of common.c is "a compile-time-fixed set of
  short upper-case tokens in both German and English (articles, pronouns, conjunctions,
  auxiliaries)"; the table is not among the sources. A few such words stand for it where
  a concrete run is evaluated; the theorems hold for every \<open>is_common\<close>.
\<close>

definition common_words_sample :: "string list" where
  "common_words_sample = [''DER'', ''DIE'', ''DAS'', ''UND'', ''WIR'', ''THE'', ''AND'']"

definition is_common_sample :: "string \<Rightarrow> bool" where
  "is_common_sample w = (w \<in> set common_words_sample)"

text \<open>
  \<open>no_later_prefix ts\<close>: in the list \<open>ts\<close>, no element is a byte-wise prefix of (or equal
  to) an element that stands before it.
\<close>

definition no_later_prefix :: "string list \<Rightarrow> bool" where
  "no_later_prefix ts = sorted_wrt (\<lambda>earlier later. \<not> prefix later earlier) ts"

text \<open>
  \<open>keyword_before a b\<close>: \<open>a\<close> may stand before \<open>b\<close> in a sorted keyword set: it has more
  UTF-8 sequences, or as many and \<open>a \<le> b\<close> in the lexicographic order of the bytes.
\<close>

definition keyword_before :: "string \<Rightarrow> string \<Rightarrow> bool" where
  "keyword_before a b =
     (case (deen_utf8_sequences_count a, deen_utf8_sequences_count b) of
        (DEEN_SEQUENCE_OK m, DEEN_SEQUENCE_OK n) \<Rightarrow> n < m \<or> (m = n \<and> a \<le> b)
      | _ \<Rightarrow> False)"

text \<open>
  The table of \<open>deen_keywords_substitute_german_usascii_abbreviations\<close>: the digraphs
  with the UTF-8 letters that replace them, in the order of the passes.
\<close>

definition umlaut_table :: "(string \<times> string) list" where
  "umlaut_table =
     [(s_Ee, r_Ee), (s_Ue, r_Ue), (s_Oe, r_Oe), (s_Ae, r_Ae), (s_Ie, r_Ie), (s_ss, r_ss)]"

text \<open>
  \<open>umlaut_subst k k'\<close>: \<open>k'\<close> is \<open>k\<close> with some occurrences of digraphs of the table,
  no two of them overlapping, each replaced in place by the two bytes of its letter, and
  every other byte kept. \<open>umlaut_free k\<close>: no digraph of the table occurs in \<open>k\<close>.
\<close>

inductive umlaut_subst :: "string \<Rightarrow> string \<Rightarrow> bool" where
  Done: "umlaut_subst [] []"
| Keep: "umlaut_subst xs ys \<Longrightarrow> umlaut_subst (a # xs) (a # ys)"
| Subst: "(s, r) \<in> set umlaut_table \<Longrightarrow> umlaut_subst xs ys \<Longrightarrow> umlaut_subst (s @ xs) (r @ ys)"

definition umlaut_free :: "string \<Rightarrow> bool" where
  "umlaut_free k = (\<forall>(s, r)\<in>set umlaut_table. \<not> sublist s k)"



definition digraph_bytes :: "char set" where
  "digraph_bytes = {CHR ''E'', CHR ''U'', CHR ''O'', CHR ''A'', CHR ''I'', CHR ''S''}"

definition umlaut_bytes :: "char set" where
  "umlaut_bytes = {CHR 0xC3, CHR 0x8B, CHR 0x9C, CHR 0x96, CHR 0x84, CHR 0x8F, CHR 0x9F}"

text \<open>
  One pass written as a scan from left to right, and the passes in sequence with their
  flags: what the loops built on \<open>strstr\<close> are shown to compute.
\<close>

fun replace_all2 :: "string \<Rightarrow> string \<Rightarrow> string \<Rightarrow> string" where
  "replace_all2 s r (a # b # xs) =
     (if [a, b] = s then r @ replace_all2 s r xs else a # replace_all2 s r (b # xs))"
| "replace_all2 s r xs = xs"

fun umlaut_passes :: "(string \<times> string) list \<Rightarrow> string \<Rightarrow> bool \<times> string" where
  "umlaut_passes [] v = (False, v)"
| "umlaut_passes ((s, r) # ps) v =
     (let (b, v') = umlaut_passes ps (replace_all2 s r v) in (sublist s v \<or> b, v'))"







text \<open>
  A concrete environment, world and run for the evaluated examples: the specification
  gives 3 as an example of the indexing depth and asks for a minimum not above it; the
  percentage of a progress value \<open>x \<ge> 0\<close> is \<open>\<lfloor>100 x\<rfloor>\<close> in eight bits.
\<close>

definition percent_sample :: "real \<Rightarrow> nat" where
  "percent_sample x = nat \<lfloor>x * 100\<rfloor> mod 256"

definition env_sample :: deen_env where
  "env_sample =
     \<lparr>env_to_upper = deen_to_upper, env_is_common_upper_word = is_common_sample,
      DEEN_INDEXING_MIN = 3, DEEN_INDEXING_DEPTH = 3, env_percent = percent_sample,
      DEEN_CAUSE_ERROR_IN_INSTALL = False\<rparr>"

definition world_start :: deen_world where
  "world_start =
     \<lparr>cancel_polls = 0, progress_calls = [], index_rows = [], data_file = False,
      index_file = False\<rparr>"

definition sys_sample :: deen_sys where
  "sys_sample =
     \<lparr>src_open_ok = True, dest_open_ok = True, copy_write_ok = True, db_open_ok = True,
      data_open_ok = True, remove_ok = True,
      ding_words = [(''Haus'', 0, 0), (''::'', 0, 1 / 4), (''house'', 0, 1 / 2),
                    (''Apfelbaum'', 14, 3 / 4), (''::'', 14, 3 / 4), (''apple'', 14, 1),
                    (''tree'', 14, 1)],
      ding_read_ok = True\<rparr>"

text \<open>A cancellation callback that answers true from its \<open>k\<close>-th call on.\<close>

definition cancelled_from :: "nat \<Rightarrow> deen_is_cancelled_cb" where
  "cancelled_from k n = (k \<le> n)"

text \<open>A context as \<open>deen_install_from_path\<close> makes it, with a bag and a ref.\<close>

definition ctx_sample :: "deen_is_cancelled_cb \<Rightarrow> nat \<Rightarrow> string list \<Rightarrow> deen_index_context" where
  "ctx_sample f ref bag =
     \<lparr>is_cancelled_cb = Some f, lastprogress = 0,
      progress_cb = Some deen_noop_install_progress_cb, current_ref = ref, prefixes = bag\<rparr>"

text \<open>
  \<open>no_idle_since w w'\<close>: the progress callback was called between the worlds \<open>w\<close> and
  \<open>w'\<close> with any states but IDLE.
\<close>

definition no_idle_since :: "deen_world \<Rightarrow> deen_world \<Rightarrow> bool" where
  "no_idle_since w w' =
     (\<exists>calls. progress_calls w' = progress_calls w @ calls
        \<and> list_all (\<lambda>c. fst c \<noteq> DEEN_INSTALL_STATE_IDLE) calls)"

section \<open>The C library models\<close>

lemma strcmp_c_le_iff: "strcmp_c a b \<le> 0 \<longleftrightarrow> a \<le> b"
  by (induction a b rule: strcmp_c.induct) auto

lemma strcmp_c_gt_iff: "0 < strcmp_c a b \<longleftrightarrow> b < a"
  by (induction a b rule: strcmp_c.induct) auto

lemma strcmp_c_eq_iff: "strcmp_c a b = 0 \<longleftrightarrow> a = b"
  by (induction a b rule: strcmp_c.induct) auto

lemma c_str_no_nul: "NUL \<notin> set (c_str buf)"
  unfolding c_str_def by (auto dest: set_takeWhileD)

lemma memcmp_c_prefix:
  "NUL \<notin> set p \<Longrightarrow> (memcmp_c (k @ [NUL]) p (length p) = 0) = prefix p k"
proof (induction k arbitrary: p)
  case Nil
  then show ?case by (cases p) auto
next
  case (Cons x xs)
  then show ?case by (cases p) auto
qed

lemma qsort_insert_mset: "qsort_insert cmp x ys = Inr zs \<Longrightarrow> mset zs = add_mset x (mset ys)"
  by (induction ys arbitrary: zs) (auto split: sum.splits if_splits)

lemma qsort_c_mset: "qsort_c cmp xs = Inr ys \<Longrightarrow> mset ys = mset xs"
  by (induction xs arbitrary: ys) (auto split: sum.splits dest: qsort_insert_mset)

text \<open>
  The sort is correct for every comparator whose "not after" relation \<open>le\<close> is transitive
  and total on the elements it accepts.
\<close>

lemma qsort_insert_sorted:
  assumes trans: "\<And>x y z. le x y \<Longrightarrow> le y z \<Longrightarrow> le x z"
    and le: "\<And>x y c. cmp x y = Inr c \<Longrightarrow> (c \<le> 0 \<longrightarrow> le x y) \<and> (0 < c \<longrightarrow> le y x)"
  shows "sorted_wrt le ys \<Longrightarrow> qsort_insert cmp x ys = Inr zs \<Longrightarrow> sorted_wrt le zs"
proof (induction ys arbitrary: zs)
  case Nil
  then show ?case by auto
next
  case (Cons y ys)
  from Cons.prems(2) obtain c where c: "cmp x y = Inr c"
    by (auto split: sum.splits)
  show ?case
  proof (cases "c \<le> 0")
    case True
    then have zs: "zs = x # y # ys" using Cons.prems(2) c by simp
    have xy: "le x y" using le[OF c] True by simp
    have "\<forall>z\<in>set ys. le x z" using xy Cons.prems(1) trans by auto
    then show ?thesis using zs xy Cons.prems(1) by simp
  next
    case False
    then obtain zs' where ins: "qsort_insert cmp x ys = Inr zs'" and zs: "zs = y # zs'"
      using Cons.prems(2) c by (auto split: sum.splits)
    have yx: "le y x" using le[OF c] False by simp
    have "sorted_wrt le zs'" using Cons.IH[OF _ ins] Cons.prems(1) by simp
    moreover have "set zs' = insert x (set ys)"
      using qsort_insert_mset[OF ins] by (metis set_mset_add_mset_insert set_mset_mset)
    ultimately show ?thesis using zs yx Cons.prems(1) by auto
  qed
qed

lemma qsort_c_sorted:
  assumes trans: "\<And>x y z. le x y \<Longrightarrow> le y z \<Longrightarrow> le x z"
    and le: "\<And>x y c. cmp x y = Inr c \<Longrightarrow> (c \<le> 0 \<longrightarrow> le x y) \<and> (0 < c \<longrightarrow> le y x)"
  shows "qsort_c cmp xs = Inr ys \<Longrightarrow> sorted_wrt le ys"
proof (induction xs arbitrary: ys)
  case Nil
  then show ?case by simp
next
  case (Cons x xs)
  then obtain ys' where s: "qsort_c cmp xs = Inr ys'" and i: "qsort_insert cmp x ys' = Inr ys"
    by (auto split: sum.splits)
  show ?case
  proof (rule qsort_insert_sorted[where le=le and cmp=cmp])
    show "\<And>x y z. le x y \<Longrightarrow> le y z \<Longrightarrow> le x z" by (rule trans)
    show "\<And>x y c. cmp x y = Inr c \<Longrightarrow> (c \<le> 0 \<longrightarrow> le x y) \<and> (0 < c \<longrightarrow> le y x)" by (rule le)
    show "sorted_wrt le ys'" by (rule Cons.IH[OF s])
    show "qsort_insert cmp x ys' = Inr ys" by (rule i)
  qed
qed

section \<open>The keyword set\<close>

lemma has_prefix_iff:
  "NUL \<notin> set p \<Longrightarrow> deen_keywords_has_prefix ks p \<longleftrightarrow> (\<exists>k\<in>set ks. prefix p k)"
  by (induction ks) (auto simp: memcmp_c_prefix)

lemma add_tokens_no_later_prefix:
  "NUL \<notin> set rest \<Longrightarrow> no_later_prefix kws \<Longrightarrow>
   no_later_prefix (deen_keywords_add_tokens is_common kws rest)"
proof (induction is_common kws rest rule: deen_keywords_add_tokens.induct)
  case (1 is_common kws rest)
  show ?case
  proof (cases "rest = []")
    case True
    then show ?thesis using "1.prems" by (simp add: deen_keywords_add_tokens.simps)
  next
    case False
    define after_space where "after_space = dropWhile isspace_c rest"
    define token where "token = takeWhile (\<lambda>c. \<not> isspace_c c) after_space"
    define after_token where "after_token = dropWhile (\<lambda>c. \<not> isspace_c c) after_space"
    define kws' where "kws' =
      (if token \<noteq> [] \<and> \<not> is_common token \<and> \<not> deen_keywords_has_prefix kws token
       then kws @ [token] else kws)"
    have sub1: "set after_space \<subseteq> set rest"
      unfolding after_space_def by (auto dest: set_dropWhileD)
    have tok: "NUL \<notin> set token"
      using sub1 "1.prems"(1) unfolding token_def by (auto dest: set_takeWhileD)
    have rest': "NUL \<notin> set after_token"
      using sub1 "1.prems"(1) unfolding after_token_def by (auto dest: set_dropWhileD)
    have inv: "no_later_prefix kws'"
      using "1.prems"(2) tok unfolding kws'_def no_later_prefix_def
      by (auto simp: sorted_wrt_append has_prefix_iff)
    have "no_later_prefix (deen_keywords_add_tokens is_common kws' after_token)"
      using "1.IH"[OF False after_space_def token_def after_token_def rest'] inv
      unfolding kws'_def by simp
    moreover have "deen_keywords_add_tokens is_common kws rest
        = deen_keywords_add_tokens is_common kws' after_token"
      using False
      by (subst deen_keywords_add_tokens.simps)
         (simp add: Let_def after_space_def token_def after_token_def kws'_def)
    ultimately show ?thesis by simp
  qed
qed

lemma no_later_prefix_distinct: "no_later_prefix ts \<Longrightarrow> distinct ts"
  unfolding no_later_prefix_def by (induction ts) auto

text \<open>
  C1, as the code has it. \<open>deen_keywords_has_prefix\<close> looks in one direction only: a token
  is dropped when it is a prefix of (or equal to) a keyword already stored, not when a
  stored keyword is a prefix of it. Starting from the empty set, the result holds the
  appended tokens, reordered by the sort; among the tokens in the order they were
  appended, none is a byte-wise prefix of, or equal to, one appended before it; so the
  members are pairwise distinct.
\<close>

theorem keywords_no_later_prefix:
  assumes "deen_keywords_add_from_string to_upper is_common deen_keywords_create input = Inr ks"
  shows "mset ks = mset (deen_keywords_add_tokens is_common [] (c_str (to_upper input)))
       \<and> no_later_prefix (deen_keywords_add_tokens is_common [] (c_str (to_upper input)))
       \<and> distinct ks"
proof -
  let ?ts = "deen_keywords_add_tokens is_common [] (c_str (to_upper input))"
  have m: "mset ks = mset ?ts"
    using assms unfolding deen_keywords_add_from_string_def deen_keywords_create_def
    by (rule qsort_c_mset)
  have n: "no_later_prefix ?ts"
    by (rule add_tokens_no_later_prefix) (simp_all add: c_str_no_nul no_later_prefix_def)
  have "distinct ?ts" using n by (rule no_later_prefix_distinct)
  then have "distinct ks" using m by (metis mset_eq_imp_distinct_iff)
  then show ?thesis using m n by simp
qed

theorem keywords_no_later_prefix_witness:
  "deen_keywords_add_from_string deen_to_upper is_common_sample deen_keywords_create
     ''das haus und die haustuer'' = Inr [''HAUSTUER'', ''HAUS'']
   \<and> mset [''HAUSTUER'', ''HAUS'']
       = mset (deen_keywords_add_tokens is_common_sample []
                 (c_str (deen_to_upper ''das haus und die haustuer'')))
   \<and> no_later_prefix (deen_keywords_add_tokens is_common_sample []
                 (c_str (deen_to_upper ''das haus und die haustuer'')))
   \<and> distinct [''HAUSTUER'', ''HAUS'']"
proof -
  have h: "deen_keywords_add_from_string deen_to_upper is_common_sample deen_keywords_create
     ''das haus und die haustuer'' = Inr [''HAUSTUER'', ''HAUS'']"
    by code_simp
  show ?thesis using h keywords_no_later_prefix[OF h] by simp
qed

text \<open>
  C1 as the claim states it fails: the input "haus haustuer" keeps both tokens, and HAUS
  is a proper prefix of HAUSTUER.
\<close>

theorem keywords_prefix_free_counterexample:
  "deen_keywords_add_from_string deen_to_upper is_common_sample deen_keywords_create
     ''haus haustuer'' = Inr [''HAUSTUER'', ''HAUS'']
   \<and> prefix ''HAUS'' ''HAUSTUER'' \<and> ''HAUS'' \<noteq> ''HAUSTUER''"
  by code_simp

lemma keyword_before_trans:
  "keyword_before x y \<Longrightarrow> keyword_before y z \<Longrightarrow> keyword_before x z"
  unfolding keyword_before_def
  by (auto split: deen_utf8_sequence_result.splits)

lemma compare_length_keyword_before:
  "deen_keywords_compare_length x y = Inr c \<Longrightarrow>
     (c \<le> 0 \<longrightarrow> keyword_before x y) \<and> (0 < c \<longrightarrow> keyword_before y x)"
  unfolding deen_keywords_compare_length_def deen_keywords_sequence_count_or_exit_def
    keyword_before_def
  by (auto split: deen_utf8_sequence_result.splits if_splits
       simp: strcmp_c_le_iff strcmp_c_gt_iff)

text \<open>
  C2: whenever \<open>deen_keywords_add_from_string\<close> returns (the comparator did not leave the
  program on a broken UTF-8 sequence), the keyword set is sorted: of two members, the one
  standing first has more UTF-8 sequences, or as many and the lexicographically smaller
  or equal bytes.
\<close>

theorem keywords_sorted:
  "deen_keywords_add_from_string to_upper is_common keywords input = Inr ks \<Longrightarrow>
   sorted_wrt keyword_before ks"
  unfolding deen_keywords_add_from_string_def
  by (rule qsort_c_sorted[of keyword_before deen_keywords_compare_length])
     (auto intro: keyword_before_trans dest: compare_length_keyword_before)

theorem keywords_sorted_witness:
  "deen_keywords_add_from_string deen_to_upper is_common_sample [''ZUG'']
     ''der Baum das haus apfel'' = Inr [''APFEL'', ''BAUM'', ''HAUS'', ''ZUG'']
   \<and> sorted_wrt keyword_before [''APFEL'', ''BAUM'', ''HAUS'', ''ZUG'']"
proof -
  have h: "deen_keywords_add_from_string deen_to_upper is_common_sample [''ZUG'']
     ''der Baum das haus apfel'' = Inr [''APFEL'', ''BAUM'', ''HAUS'', ''ZUG'']"
    by code_simp
  show ?thesis using h keywords_sorted[OF h] by simp
qed

section \<open>Presence of the keywords\<close>

lemma ifind_first_None_iff:
  "deen_ifind_first s f 0 n = None \<longleftrightarrow> (\<forall>i<n. \<not> prefix f (map toupper_c (drop i s)))"
  unfolding deen_ifind_first_def deen_imatches_at_def by (auto simp: find_None_iff)

text \<open>
  C9: \<open>deen_keywords_all_present\<close> is true exactly when every keyword matches the text
  at some offset after the bytes of the text are upper-cased (the keyword is upper case
  already); for the empty keyword set it is true for every text.
\<close>

theorem all_present_iff:
  "(deen_keywords_all_present ks text
      \<longleftrightarrow> (\<forall>k\<in>set ks. \<exists>i<length text. prefix k (map toupper_c (drop i text))))
   \<and> deen_keywords_all_present deen_keywords_create text"
  by (induction ks) (auto simp: ifind_first_None_iff deen_keywords_create_def)

theorem all_present_iff_witness:
  "deen_keywords_all_present [''HOUSE'', ''HAUS''] ''Haus :: house''
   \<and> (\<exists>i<length ''Haus :: house''. prefix ''HOUSE'' (map toupper_c (drop i ''Haus :: house'')))
   \<and> (\<exists>i<length ''Haus :: house''. prefix ''HAUS'' (map toupper_c (drop i ''Haus :: house'')))
   \<and> deen_keywords_all_present deen_keywords_create ''Haus :: house''"
proof -
  let ?T = "''Haus :: house''"
  have h: "deen_keywords_all_present [''HOUSE'', ''HAUS''] ?T"
    by code_simp
  have a: "\<forall>k\<in>set [''HOUSE'', ''HAUS'']. \<exists>i<length ?T. prefix k (map toupper_c (drop i ?T))"
    using h all_present_iff[of "[''HOUSE'', ''HAUS'']" ?T] by blast
  have b: "deen_keywords_all_present deen_keywords_create ?T"
    using all_present_iff[of "[''HOUSE'', ''HAUS'']" ?T] by blast
  have a1: "\<exists>i<length ?T. prefix ''HOUSE'' (map toupper_c (drop i ?T))"
    by (rule a[rule_format]) simp
  have a2: "\<exists>i<length ?T. prefix ''HAUS'' (map toupper_c (drop i ?T))"
    by (rule a[rule_format]) simp
  show ?thesis using h a1 a2 b by blast
qed

section \<open>The umlaut recovery\<close>

lemma strstr_c_None: "strstr_c xs s = None \<Longrightarrow> \<not> sublist s xs"
  by (induction xs) (auto simp: sublist_Cons_right split: if_splits option.splits)

lemma strstr_c_Some:
  "strstr_c xs s = Some k \<Longrightarrow>
     \<exists>pre post. xs = pre @ s @ post \<and> length pre = k \<and> (\<forall>j<k. \<not> prefix s (drop j xs))"
proof (induction xs arbitrary: k)
  case Nil
  then show ?case by (auto split: if_splits)
next
  case (Cons x xs)
  show ?case
  proof (cases "prefix s (x # xs)")
    case True
    then have "k = 0" using Cons.prems by simp
    then show ?thesis using True by (auto simp: prefix_def)
  next
    case False
    then obtain k' where k': "strstr_c xs s = Some k'" and k: "k = Suc k'"
      using Cons.prems by (auto split: option.splits)
    from Cons.IH[OF k'] obtain pre post where
      p: "xs = pre @ s @ post" "length pre = k'" "\<forall>j<k'. \<not> prefix s (drop j xs)"
      by blast
    have "\<forall>j<k. \<not> prefix s (drop j (x # xs))"
    proof (intro allI impI)
      fix j assume "j < k"
      then show "\<not> prefix s (drop j (x # xs))"
        using False p(3) k by (cases j) auto
    qed
    then show ?thesis using p k
      by (intro exI[of _ "x # pre"] exI[of _ post]) simp
  qed
qed

lemma sublist_pair_Cons:
  "sublist [s0, s1] (a # b # xs) \<longleftrightarrow> (a = s0 \<and> b = s1) \<or> sublist [s0, s1] (b # xs)"
  by (auto simp: sublist_Cons_right)

lemma replace_all2_none: "\<not> sublist [s0, s1] xs \<Longrightarrow> replace_all2 [s0, s1] r xs = xs"
  by (induction "[s0, s1]" r xs rule: replace_all2.induct) (auto simp: sublist_pair_Cons)

lemma replace_all2_first:
  "(\<forall>j<length pre. \<not> prefix [s0, s1] (drop j (pre @ s0 # s1 # post))) \<Longrightarrow>
   replace_all2 [s0, s1] r (pre @ s0 # s1 # post) = pre @ r @ replace_all2 [s0, s1] r post"
proof (induction pre)
  case Nil
  then show ?case by simp
next
  case (Cons a pre)
  have ne: "\<not> prefix [s0, s1] ((a # pre) @ s0 # s1 # post)"
    using Cons.prems by (metis drop0 length_greater_0_conv list.discI)
  have rest: "\<forall>j<length pre. \<not> prefix [s0, s1] (drop j (pre @ s0 # s1 # post))"
  proof (intro allI impI)
    fix j assume "j < length pre"
    then have "Suc j < length (a # pre)" by simp
    from Cons.prems[rule_format, OF this] show "\<not> prefix [s0, s1] (drop j (pre @ s0 # s1 # post))"
      by simp
  qed
  obtain b ys where bys: "pre @ s0 # s1 # post = b # ys"
    by (cases "pre @ s0 # s1 # post") auto
  have "[a, b] \<noteq> [s0, s1]" using ne bys by auto
  then have "replace_all2 [s0, s1] r ((a # pre) @ s0 # s1 # post)
      = a # replace_all2 [s0, s1] r (pre @ s0 # s1 # post)"
    using bys by auto
  then show ?case using Cons.IH[OF rest] by simp
qed

lemma replace_all2_skip:
  "c \<noteq> s0 \<Longrightarrow> replace_all2 [s0, s1] r (c # ys) = c # replace_all2 [s0, s1] r ys"
  by (cases ys) auto

lemma single_substitute_replace_all2:
  assumes "r1 \<noteq> s0"
  shows "deen_keywords_single_substitute (p @ xs) (length p) res [s0, s1] [r0, r1]
       = (res \<or> sublist [s0, s1] xs, p @ replace_all2 [s0, s1] [r0, r1] xs)"
proof (induction "length xs" arbitrary: xs p res rule: less_induct)
  case less
  show ?case
  proof (cases "strstr_c xs [s0, s1]")
    case None
    then have "\<not> sublist [s0, s1] xs" by (rule strstr_c_None)
    then show ?thesis using None
      by (subst deen_keywords_single_substitute.simps) (simp add: replace_all2_none)
  next
    case (Some k)
    from strstr_c_Some[OF Some] obtain pre post where
      xs: "xs = pre @ [s0, s1] @ post" and k: "length pre = k"
      and first: "\<forall>j<k. \<not> prefix [s0, s1] (drop j xs)"
      by blast
    have upd: "(p @ xs)[length p + k := [r0, r1] ! 0, length p + k + 1 := [r0, r1] ! 1]
        = (p @ pre @ [r0]) @ (r1 # post)"
      using xs k by (simp add: list_update_append)
    have len: "length (p @ pre @ [r0]) = length p + k + 1" using k by simp
    have sub: "sublist [s0, s1] xs" using xs by (metis sublist_appendI)
    have "deen_keywords_single_substitute (p @ xs) (length p) res [s0, s1] [r0, r1]
        = deen_keywords_single_substitute ((p @ pre @ [r0]) @ (r1 # post))
            (length (p @ pre @ [r0])) True [s0, s1] [r0, r1]"
      using Some xs k upd len
      by (subst deen_keywords_single_substitute.simps) simp
    also have "\<dots> = (True \<or> sublist [s0, s1] (r1 # post),
          (p @ pre @ [r0]) @ replace_all2 [s0, s1] [r0, r1] (r1 # post))"
      by (rule less) (simp add: xs)
    also have "\<dots> = (True, p @ pre @ [r0, r1] @ replace_all2 [s0, s1] [r0, r1] post)"
      using assms by (simp add: replace_all2_skip)
    also have "\<dots> = (res \<or> sublist [s0, s1] xs, p @ replace_all2 [s0, s1] [r0, r1] xs)"
      using replace_all2_first[of pre s0 s1 post "[r0, r1]"] first xs k sub by simp
    finally show ?thesis .
  qed
qed

lemmas umlaut_defs = umlaut_table_def s_Ee_def s_Ue_def s_Oe_def s_Ae_def s_Ie_def s_ss_def
  r_Ee_def r_Ue_def r_Oe_def r_Ae_def r_Ie_def r_ss_def

lemma umlaut_table_shape:
  assumes "(s, r) \<in> set umlaut_table"
  obtains s0 s1 r0 r1 where "s = [s0, s1]" "r = [r0, r1]"
    "s0 \<in> digraph_bytes" "s1 \<in> digraph_bytes" "r0 \<in> umlaut_bytes" "r1 \<in> umlaut_bytes"
  using assms unfolding umlaut_defs digraph_bytes_def umlaut_bytes_def by auto

lemma digraph_umlaut_disjoint: "a \<in> digraph_bytes \<Longrightarrow> b \<in> umlaut_bytes \<Longrightarrow> a \<noteq> b"
  unfolding digraph_bytes_def umlaut_bytes_def by auto

lemma sublist_pair_skip: "c \<noteq> t0 \<Longrightarrow> sublist [t0, t1] (c # ys) = sublist [t0, t1] ys"
  by (auto simp: sublist_Cons_right)

lemma replace_all2_hd:
  "replace_all2 [s0, s1] [r0, r1] (b # xs) = z # zs \<Longrightarrow> z = b \<or> z = r0"
  by (cases xs) (auto split: if_splits)

lemma replace_all2_length: "length (replace_all2 [s0, s1] [r0, r1] xs) = length xs"
  by (induction "[s0, s1]" "[r0, r1]" xs rule: replace_all2.induct) auto

lemma replace_all2_prefix:
  assumes "t0 \<noteq> r0" "t1 \<noteq> r0"
  shows "prefix [t0, t1] (replace_all2 [s0, s1] [r0, r1] xs) \<Longrightarrow>
         prefix [t0, t1] xs \<and> [t0, t1] \<noteq> [s0, s1]"
proof (cases xs)
  case Nil
  then show "prefix [t0, t1] (replace_all2 [s0, s1] [r0, r1] xs) \<Longrightarrow> ?thesis" by simp
next
  case (Cons a ys)
  assume p: "prefix [t0, t1] (replace_all2 [s0, s1] [r0, r1] xs)"
  show ?thesis
  proof (cases ys)
    case Nil
    then show ?thesis using p Cons by simp
  next
    case (Cons b rest)
    note xs = \<open>xs = a # ys\<close> Cons
    show ?thesis
    proof (cases "[a, b] = [s0, s1]")
      case True
      then show ?thesis using p xs assms by auto
    next
      case False
      then have out: "replace_all2 [s0, s1] [r0, r1] xs = a # replace_all2 [s0, s1] [r0, r1] (b # rest)"
        using xs by auto
      obtain z zs where z: "replace_all2 [s0, s1] [r0, r1] (b # rest) = z # zs"
        using replace_all2_length[of s0 s1 r0 r1 "b # rest"]
        by (cases "replace_all2 [s0, s1] [r0, r1] (b # rest)") auto
      have "z = b \<or> z = r0" using z by (rule replace_all2_hd)
      moreover have "a = t0" "z = t1" using p out z by auto
      ultimately show ?thesis using assms xs False by auto
    qed
  qed
qed

lemma replace_all2_sublist:
  assumes "t0 \<noteq> r0" "t1 \<noteq> r0" "t0 \<noteq> r1"
  shows "sublist [t0, t1] (replace_all2 [s0, s1] [r0, r1] xs) \<Longrightarrow>
         sublist [t0, t1] xs \<and> [t0, t1] \<noteq> [s0, s1]"
proof (induction "[s0, s1]" "[r0, r1]" xs rule: replace_all2.induct)
  case (1 a b xs)
  show ?case
  proof (cases "[a, b] = [s0, s1]")
    case True
    then have "sublist [t0, t1] (replace_all2 [s0, s1] [r0, r1] xs)"
      using "1.prems" assms by (simp add: sublist_pair_skip)
    then have "sublist [t0, t1] xs \<and> [t0, t1] \<noteq> [s0, s1]"
      using "1.hyps"(1) True by blast
    then show ?thesis by (auto simp: sublist_Cons_right)
  next
    case False
    then have out: "replace_all2 [s0, s1] [r0, r1] (a # b # xs)
        = a # replace_all2 [s0, s1] [r0, r1] (b # xs)"
      by auto
    from "1.prems" have "prefix [t0, t1] (replace_all2 [s0, s1] [r0, r1] (a # b # xs))
        \<or> sublist [t0, t1] (replace_all2 [s0, s1] [r0, r1] (b # xs))"
      unfolding out by (auto simp: sublist_Cons_right)
    then show ?thesis
    proof
      assume "prefix [t0, t1] (replace_all2 [s0, s1] [r0, r1] (a # b # xs))"
      from replace_all2_prefix[OF assms(1,2) this] show ?thesis
        by (auto simp: sublist_Cons_right)
    next
      assume "sublist [t0, t1] (replace_all2 [s0, s1] [r0, r1] (b # xs))"
      then have "sublist [t0, t1] (b # xs) \<and> [t0, t1] \<noteq> [s0, s1]"
        using "1.hyps"(2) False by blast
      then show ?thesis by (auto simp: sublist_Cons_right)
    qed
  qed
qed (auto simp: sublist_Cons_right)

lemma umlaut_subst_refl: "umlaut_subst x x"
  by (induction x) (auto intro: umlaut_subst.intros)


lemma umlaut_subst_keep_digraph_byte:
  "umlaut_subst xs (b # ys) \<Longrightarrow> b \<in> digraph_bytes \<Longrightarrow>
     \<exists>xs'. xs = b # xs' \<and> umlaut_subst xs' ys"
  by (erule umlaut_subst.cases) (auto elim!: umlaut_table_shape dest: digraph_umlaut_disjoint)

lemma umlaut_subst_replace:
  assumes sr: "(s, r) \<in> set umlaut_table"
  shows "umlaut_subst x y \<Longrightarrow> umlaut_subst x (replace_all2 s r y)"
proof (induction "length y" arbitrary: x y rule: less_induct)
  case less
  from sr obtain s0 s1 r0 r1 where s: "s = [s0, s1]" and r: "r = [r0, r1]"
    and s0: "s0 \<in> digraph_bytes" and s1: "s1 \<in> digraph_bytes"
    by (rule umlaut_table_shape)
  from less.prems show ?case
  proof (cases rule: umlaut_subst.cases)
    case Done
    then show ?thesis by (simp add: umlaut_subst.Done)
  next
    case (Keep xs ys a)
    show ?thesis
    proof (cases ys)
      case Nil
      then show ?thesis using Keep less.prems by simp
    next
      case (Cons b ys')
      show ?thesis
      proof (cases "[a, b] = s")
        case True
        then have b: "b = s1" using s by simp
        from Keep(3) Cons have "umlaut_subst xs (b # ys')" by simp
        then obtain xs' where xs: "xs = b # xs'" and sub: "umlaut_subst xs' ys'"
          using umlaut_subst_keep_digraph_byte b s1 by blast
        have "umlaut_subst xs' (replace_all2 s r ys')"
          by (rule less.hyps[OF _ sub]) (simp add: Keep Cons)
        then have "umlaut_subst (s @ xs') (r @ replace_all2 s r ys')"
          using sr by (rule umlaut_subst.Subst[rotated])
        then show ?thesis using True Keep Cons xs by auto
      next
        case False
        have "umlaut_subst xs (replace_all2 s r ys)"
          by (rule less.hyps[OF _ Keep(3)]) (simp add: Keep)
        then have "umlaut_subst (a # xs) (a # replace_all2 s r ys)"
          by (rule umlaut_subst.Keep)
        then show ?thesis using False Keep Cons by auto
      qed
    qed
  next
    case (Subst s' r' xs ys)
    from Subst(3) obtain q0 q1 where r': "r' = [q0, q1]"
      and q0: "q0 \<in> umlaut_bytes" and q1: "q1 \<in> umlaut_bytes"
      by (auto elim: umlaut_table_shape)
    have n0: "q0 \<noteq> s0" and n1: "q1 \<noteq> s0"
      using s0 q0 q1 digraph_umlaut_disjoint by blast+
    have "replace_all2 s r y = q0 # q1 # replace_all2 s r ys"
      using Subst(2) r' s n0 n1 by (simp add: replace_all2_skip)
    moreover have "umlaut_subst xs (replace_all2 s r ys)"
      by (rule less.hyps[OF _ Subst(4)]) (simp add: Subst r')
    ultimately show ?thesis
      using umlaut_subst.Subst[OF Subst(3), of xs "replace_all2 s r ys"] Subst(1) r' by simp
  qed
qed

lemma table_replace_length:
  "(s, r) \<in> set umlaut_table \<Longrightarrow> length (replace_all2 s r y) = length y"
  by (auto elim!: umlaut_table_shape simp: replace_all2_length)

lemma table_replace_sublist:
  assumes "(s, r) \<in> set umlaut_table" "(t, u) \<in> set umlaut_table"
    and "sublist t (replace_all2 s r y)"
  shows "sublist t y \<and> t \<noteq> s"
proof -
  from assms(1) obtain s0 s1 r0 r1 where s: "s = [s0, s1]" "r = [r0, r1]"
    and r: "r0 \<in> umlaut_bytes" "r1 \<in> umlaut_bytes"
    by (rule umlaut_table_shape)
  from assms(2) obtain t0 t1 where t: "t = [t0, t1]"
    and tb: "t0 \<in> digraph_bytes" "t1 \<in> digraph_bytes"
    by (auto elim: umlaut_table_shape)
  have "t0 \<noteq> r0" "t1 \<noteq> r0" "t0 \<noteq> r1"
    using r tb digraph_umlaut_disjoint by blast+
  from replace_all2_sublist[OF this, of s0 s1 y] assms(3) show ?thesis
    unfolding s t by simp
qed

lemma table_replace_none:
  "(s, r) \<in> set umlaut_table \<Longrightarrow> \<not> sublist s y \<Longrightarrow> replace_all2 s r y = y"
  by (auto elim!: umlaut_table_shape simp: replace_all2_none)

lemma single_substitute_table:
  assumes "(s, r) \<in> set umlaut_table"
  shows "deen_keywords_single_substitute v 0 False s r = (sublist s v, replace_all2 s r v)"
proof -
  from assms obtain s0 s1 r0 r1 where s: "s = [s0, s1]" "r = [r0, r1]"
    and b: "s0 \<in> digraph_bytes" "r1 \<in> umlaut_bytes"
    by (rule umlaut_table_shape)
  have "r1 \<noteq> s0" using b digraph_umlaut_disjoint by blast
  from single_substitute_replace_all2[OF this, of "[]" v False s1 r0] show ?thesis
    unfolding s by simp
qed

lemma substitute_passes:
  "deen_keywords_substitute_german_usascii_abbreviations v = umlaut_passes umlaut_table v"
proof -
  have m: "(s_Ee, r_Ee) \<in> set umlaut_table" "(s_Ue, r_Ue) \<in> set umlaut_table"
    "(s_Oe, r_Oe) \<in> set umlaut_table" "(s_Ae, r_Ae) \<in> set umlaut_table"
    "(s_Ie, r_Ie) \<in> set umlaut_table" "(s_ss, r_ss) \<in> set umlaut_table"
    by (simp_all add: umlaut_table_def)
  show ?thesis
    unfolding deen_keywords_substitute_german_usascii_abbreviations_def
    by (simp add: single_substitute_table[OF m(1)] single_substitute_table[OF m(2)]
        single_substitute_table[OF m(3)] single_substitute_table[OF m(4)]
        single_substitute_table[OF m(5)] single_substitute_table[OF m(6)]
        umlaut_table_def Let_def)
qed

lemma passes_subst:
  "set ps \<subseteq> set umlaut_table \<Longrightarrow> umlaut_subst x v \<Longrightarrow> umlaut_subst x (snd (umlaut_passes ps v))"
  by (induction ps v rule: umlaut_passes.induct)
     (auto simp: split_beta intro: umlaut_subst_replace)

lemma passes_length:
  "set ps \<subseteq> set umlaut_table \<Longrightarrow> length (snd (umlaut_passes ps v)) = length v"
  by (induction ps v rule: umlaut_passes.induct)
     (auto simp: split_beta table_replace_length)

lemma passes_sublist:
  "set ps \<subseteq> set umlaut_table \<Longrightarrow> (t, u) \<in> set umlaut_table \<Longrightarrow>
   sublist t (snd (umlaut_passes ps v)) \<Longrightarrow> sublist t v \<and> t \<notin> fst ` set ps"
proof (induction ps v rule: umlaut_passes.induct)
  case (1 v)
  then show ?case by simp
next
  case (2 s r ps v)
  have "sublist t (snd (umlaut_passes ps (replace_all2 s r v)))"
    using "2.prems"(3) by (simp add: split_beta)
  then have a: "sublist t (replace_all2 s r v)" "t \<notin> fst ` set ps"
    using "2.IH" "2.prems"(1,2) by auto
  have "sublist t v \<and> t \<noteq> s"
    using table_replace_sublist[OF _ "2.prems"(2) a(1)] "2.prems"(1) by simp
  then show ?case using a(2) by simp
qed

lemma passes_flag:
  "set ps \<subseteq> set umlaut_table \<Longrightarrow>
   fst (umlaut_passes ps v) \<longleftrightarrow> (\<exists>(s, r)\<in>set ps. sublist s v)"
proof (induction ps v rule: umlaut_passes.induct)
  case (1 v)
  then show ?case by simp
next
  case (2 s r ps v)
  have sr: "(s, r) \<in> set umlaut_table" and ps: "set ps \<subseteq> set umlaut_table"
    using "2.prems" by auto
  have IH: "fst (umlaut_passes ps (replace_all2 s r v))
      \<longleftrightarrow> (\<exists>(t, u)\<in>set ps. sublist t (replace_all2 s r v))"
    using "2.IH" ps by simp
  show ?case
  proof (cases "sublist s v")
    case True
    then show ?thesis by (simp add: split_beta)
  next
    case False
    then have "replace_all2 s r v = v" using sr by (simp add: table_replace_none)
    then show ?thesis using IH False by (simp add: split_beta)
  qed
qed

lemma passes_unchanged:
  "set ps \<subseteq> set umlaut_table \<Longrightarrow> \<not> fst (umlaut_passes ps v) \<Longrightarrow> snd (umlaut_passes ps v) = v"
  by (induction ps v rule: umlaut_passes.induct)
     (auto simp: split_beta table_replace_none)

lemma substitute_props:
  assumes "deen_keywords_substitute_german_usascii_abbreviations v = (b, v')"
  shows "umlaut_subst v v'" "length v' = length v" "umlaut_free v'"
    "b \<longleftrightarrow> \<not> umlaut_free v" "b \<longleftrightarrow> v' \<noteq> v"
proof -
  have p: "umlaut_passes umlaut_table v = (b, v')"
    using assms by (simp add: substitute_passes)
  show "umlaut_subst v v'"
    using passes_subst[of umlaut_table v v] p by (simp add: umlaut_subst_refl)
  show "length v' = length v"
    using passes_length[of umlaut_table v] p by simp
  show free: "umlaut_free v'"
    unfolding umlaut_free_def
  proof (clarify)
    fix t u assume tu: "(t, u) \<in> set umlaut_table" and "sublist t v'"
    then have "t \<notin> fst ` set umlaut_table"
      using passes_sublist[of umlaut_table t u v] p by simp
    then show False using tu by force
  qed
  show flag: "b \<longleftrightarrow> \<not> umlaut_free v"
    using passes_flag[of umlaut_table v] p unfolding umlaut_free_def by auto
  show "b \<longleftrightarrow> v' \<noteq> v"
  proof
    assume b
    then show "v' \<noteq> v" using flag free by auto
  next
    assume "v' \<noteq> v"
    then show b using passes_unchanged[of umlaut_table v] p by auto
  qed
qed

lemma adjust_loop_map:
  "deen_keywords_adjust_loop ks adjusted =
     (adjusted \<or> (\<exists>k\<in>set ks. fst (deen_keywords_substitute_german_usascii_abbreviations k)),
      map (\<lambda>k. snd (deen_keywords_substitute_german_usascii_abbreviations k)) ks)"
  by (induction ks arbitrary: adjusted) (auto simp: split_beta)








lemma adjust_props:
  assumes "deen_keywords_adjust ks = (b, ks')"
  shows "list_all2 umlaut_subst ks ks' \<and> map length ks' = map length ks
       \<and> list_all umlaut_free ks' \<and> (b \<longleftrightarrow> \<not> list_all umlaut_free ks) \<and> (b \<longleftrightarrow> ks' \<noteq> ks)"
proof -
  let ?f = deen_keywords_substitute_german_usascii_abbreviations
  have ks': "ks' = map (\<lambda>k. snd (?f k)) ks" and b: "b = (\<exists>k\<in>set ks. fst (?f k))"
    using assms unfolding deen_keywords_adjust_def adjust_loop_map by auto
  have each: "\<And>k. umlaut_subst k (snd (?f k)) \<and> length (snd (?f k)) = length k
      \<and> umlaut_free (snd (?f k)) \<and> (fst (?f k) \<longleftrightarrow> \<not> umlaut_free k)
      \<and> (fst (?f k) \<longleftrightarrow> snd (?f k) \<noteq> k)"
    using substitute_props[OF prod.collapse[symmetric]] by blast
  have 1: "list_all2 umlaut_subst ks ks'"
    unfolding ks' using each by (simp add: list_all2_map2 list_all2_same)
  have 2: "map length ks' = map length ks"
    unfolding ks' using each by simp
  have 3: "list_all umlaut_free ks'"
    unfolding ks' using each by (simp add: list_all_iff)
  have 4: "b \<longleftrightarrow> \<not> list_all umlaut_free ks"
    unfolding b using each by (auto simp: list_all_iff)
  have "map (\<lambda>k. snd (?f k)) ks = ks \<longleftrightarrow> (\<forall>k\<in>set ks. snd (?f k) = k)"
    by (induction ks) auto
  then have 5: "b \<longleftrightarrow> ks' \<noteq> ks"
    unfolding b ks' using each by blast
  show ?thesis using 1 2 3 4 5 by blast
qed



text \<open>
  C7: a second \<open>deen_keywords_adjust\<close> performs no substitution and leaves every keyword
  as the first one left it.
\<close>

theorem deen_keywords_adjust_idempotent:
  "deen_keywords_adjust (snd (deen_keywords_adjust ks)) = (False, snd (deen_keywords_adjust ks))"
proof -
  obtain b ks' where a: "deen_keywords_adjust ks = (b, ks')"
    by (cases "deen_keywords_adjust ks")
  obtain b2 ks2 where a2: "deen_keywords_adjust ks' = (b2, ks2)"
    by (cases "deen_keywords_adjust ks'")
  have "list_all umlaut_free ks'"
    using adjust_props[OF a] by blast
  then have "\<not> b2" "ks2 = ks'"
    using adjust_props[OF a2] by auto
  then show ?thesis using a a2 by simp
qed

theorem deen_keywords_adjust_idempotent_witness:
  "deen_keywords_adjust (snd (deen_keywords_adjust [''STRASSE'', ''SCHNEEEULE'']))
     = (False, snd (deen_keywords_adjust [''STRASSE'', ''SCHNEEEULE'']))"
  by (rule deen_keywords_adjust_idempotent)

section \<open>The format check\<close>














section \<open>The prefix bag\<close>

lemma strcmp_c_lt_iff: "strcmp_c a b < 0 \<longleftrightarrow> a < b"
  using strcmp_c_le_iff[of a b] strcmp_c_eq_iff[of a b] by auto

lemma bsearch_c_sorted: "sorted xs \<Longrightarrow> bsearch_c key xs \<longleftrightarrow> key \<in> set xs"
proof (induction key xs rule: bsearch_c.induct)
  case (1 key xs)
  show ?case
  proof (cases "xs = []")
    case True
    then show ?thesis by (subst bsearch_c.simps) simp
  next
    case False
    define mid where "mid = length xs div 2"
    have mid: "mid < length xs" using False unfolding mid_def by simp
    have xs: "xs = take mid xs @ xs ! mid # drop (Suc mid) xs"
      using mid by (rule id_take_nth_drop)
    have s: "sorted (take mid xs @ xs ! mid # drop (Suc mid) xs)"
      using "1.prems" xs by simp
    have lo: "\<forall>y\<in>set (take mid xs). y \<le> xs ! mid"
      and hi: "\<forall>y\<in>set (drop (Suc mid) xs). xs ! mid \<le> y"
      and sl: "sorted (take mid xs)" and sh: "sorted (drop (Suc mid) xs)"
      using s by (auto simp: sorted_append)
    have mem: "key \<in> set xs \<longleftrightarrow>
        key \<in> set (take mid xs) \<or> key = xs ! mid \<or> key \<in> set (drop (Suc mid) xs)"
      by (subst xs) auto
    consider (eq) "strcmp_c key (xs ! mid) = 0" | (lt) "strcmp_c key (xs ! mid) < 0"
      | (gt) "0 < strcmp_c key (xs ! mid)"
      by linarith
    then show ?thesis
    proof cases
      case eq
      then have "bsearch_c key xs" using False
        by (subst bsearch_c.simps) (simp add: mid_def[symmetric])
      moreover have "key = xs ! mid" using eq by (simp add: strcmp_c_eq_iff)
      ultimately show ?thesis using mem by simp
    next
      case lt
      then have k: "key < xs ! mid" by (simp add: strcmp_c_lt_iff)
      have "bsearch_c key xs = bsearch_c key (take mid xs)"
        using False lt by (subst bsearch_c.simps) (simp add: mid_def[symmetric])
      also have "\<dots> \<longleftrightarrow> key \<in> set (take mid xs)"
        using "1.IH"(1)[OF False mid_def refl _ _ sl] lt by simp
      also have "\<dots> \<longleftrightarrow> key \<in> set xs"
        using mem k hi by auto
      finally show ?thesis .
    next
      case gt
      then have k: "xs ! mid < key" by (simp add: strcmp_c_gt_iff)
      have "bsearch_c key xs = bsearch_c key (drop (Suc mid) xs)"
        using False gt by (subst bsearch_c.simps) (simp add: mid_def[symmetric])
      also have "\<dots> \<longleftrightarrow> key \<in> set (drop (Suc mid) xs)"
        using "1.IH"(2)[OF False mid_def refl _ _ sh] gt by simp
      also have "\<dots> \<longleftrightarrow> key \<in> set xs"
        using mem k lo by auto
      finally show ?thesis .
    qed
  qed
qed

lemma qsort_insert_total:
  "(\<And>x y. \<exists>c. cmp x y = Inr c) \<Longrightarrow> \<exists>zs. qsort_insert cmp x ys = Inr zs"
proof (induction ys)
  case Nil
  then show ?case by simp
next
  case (Cons y ys)
  from Cons.prems obtain c where c: "cmp x y = Inr c" by blast
  from Cons.IH Cons.prems obtain zs where "qsort_insert cmp x ys = Inr zs" by blast
  then show ?case using c by simp
qed

lemma qsort_c_total:
  "(\<And>x y. \<exists>c. cmp x y = Inr c) \<Longrightarrow> \<exists>ys. qsort_c cmp xs = Inr ys"
proof (induction xs)
  case Nil
  then show ?case by simp
next
  case (Cons x xs)
  from Cons.IH Cons.prems obtain ys where ys: "qsort_c cmp xs = Inr ys" by blast
  from qsort_insert_total[of cmp x ys] Cons.prems obtain zs where "qsort_insert cmp x ys = Inr zs"
    by blast
  then show ?case using ys by simp
qed

lemma add_prefix_to_context:
  "\<exists>ps. deen_index_add_prefix_to_context ctx s = Inr (ctx\<lparr>prefixes := ps\<rparr>)
        \<and> sorted ps \<and> set ps = insert s (set (prefixes ctx))"
proof -
  obtain ps where ps: "qsort_c deen_index_prefix_compare (prefixes ctx @ [s]) = Inr ps"
    using qsort_c_total[of deen_index_prefix_compare "prefixes ctx @ [s]"]
    by (auto simp: deen_index_prefix_compare_def)
  have "sorted_wrt (\<le>) ps"
    by (rule qsort_c_sorted[of "(\<le>)" deen_index_prefix_compare, OF _ _ ps])
       (auto simp: deen_index_prefix_compare_def strcmp_c_le_iff strcmp_c_gt_iff)
  moreover have "set ps = insert s (set (prefixes ctx))"
    using qsort_c_mset[OF ps] by (metis mset_eq_setD set_append list.set(1,2) Un_insert_right sup_bot.right_neutral)
  ultimately show ?thesis
    using ps by (auto simp: deen_index_add_prefix_to_context_def and_then_def)
qed

lemma add_prefix_if_not_present:
  assumes "sorted (prefixes ctx)"
  shows "\<exists>ps. deen_index_add_prefix_to_context_if_not_present ctx s = Inr (ctx\<lparr>prefixes := ps\<rparr>)
        \<and> sorted ps \<and> set ps = insert s (set (prefixes ctx))"
proof (cases "prefixes ctx = [] \<or> \<not> bsearch_c s (prefixes ctx)")
  case True
  then show ?thesis
    using add_prefix_to_context[of ctx s]
    by (simp add: deen_index_add_prefix_to_context_if_not_present_def)
next
  case False
  then have "s \<in> set (prefixes ctx)" using assms by (simp add: bsearch_c_sorted)
  then have "set (prefixes ctx) = insert s (set (prefixes ctx))" by auto
  then show ?thesis using False assms
    by (intro exI[of _ "prefixes ctx"])
       (simp add: deen_index_add_prefix_to_context_if_not_present_def)
qed

section \<open>The UTF-8 primitives\<close>

lemma sequence_len_OK:
  "deen_utf8_sequence_len c = DEEN_SEQUENCE_OK k \<Longrightarrow>
     c \<noteq> [] \<and> utf8_lead_len (hd c) = Some k \<and> k \<le> length c"
  unfolding deen_utf8_sequence_len_def
  by (auto split: list.splits option.splits if_splits)

lemma sequences_count_step:
  assumes "deen_utf8_sequences_count c = DEEN_SEQUENCE_OK n" "c \<noteq> []"
  obtains k n' where "deen_utf8_sequence_len c = DEEN_SEQUENCE_OK k" "0 < k" "k \<le> length c"
    "deen_utf8_sequences_count (drop k c) = DEEN_SEQUENCE_OK n'" "n = Suc n'"
proof -
  from assms have "(case deen_utf8_sequence_len c of
              DEEN_SEQUENCE_OK k \<Rightarrow>
                (if k = 0 then DEEN_BAD_SEQUENCE
                 else (case deen_utf8_sequences_count (drop k c) of
                         DEEN_SEQUENCE_OK n \<Rightarrow> DEEN_SEQUENCE_OK (Suc n)
                       | r \<Rightarrow> r))
            | r \<Rightarrow> r) = DEEN_SEQUENCE_OK n"
    by (subst (asm) deen_utf8_sequences_count.simps) simp
  then obtain k n' where "deen_utf8_sequence_len c = DEEN_SEQUENCE_OK k" "k \<noteq> 0"
    "deen_utf8_sequences_count (drop k c) = DEEN_SEQUENCE_OK n'" "n = Suc n'"
    by (auto split: deen_utf8_sequence_result.splits if_splits)
  then show ?thesis using that sequence_len_OK[of c k] by auto
qed

lemma sequences_count_le_length:
  "deen_utf8_sequences_count c = DEEN_SEQUENCE_OK n \<Longrightarrow> n \<le> length c"
proof (induction "length c" arbitrary: c n rule: less_induct)
  case less
  show ?case
  proof (cases "c = []")
    case True
    then show ?thesis using less.prems by (subst (asm) deen_utf8_sequences_count.simps) simp
  next
    case False
    from sequences_count_step[OF less.prems False] obtain k n' where
      k: "0 < k" "k \<le> length c" "deen_utf8_sequences_count (drop k c) = DEEN_SEQUENCE_OK n'"
      "n = Suc n'"
      by metis
    have "n' \<le> length (drop k c)"
      by (rule less.hyps[OF _ k(3)]) (use k False in simp)
    then show ?thesis using k by simp
  qed
qed

lemma sequence_len_prefix:
  assumes "deen_utf8_sequence_len c = DEEN_SEQUENCE_OK k" "0 < k"
  shows "deen_utf8_sequence_len (take k c @ rest) = DEEN_SEQUENCE_OK k"
proof -
  from sequence_len_OK[OF assms(1)] obtain b bs where c: "c = b # bs"
    and l: "utf8_lead_len b = Some k" "k \<le> length c"
    by (cases c) auto
  obtain j where j: "k = Suc j" using assms(2) by (cases k) auto
  show ?thesis
    using c l j unfolding deen_utf8_sequence_len_def by simp
qed

lemma crop_valid:
  "deen_utf8_sequences_count c = DEEN_SEQUENCE_OK n \<Longrightarrow>
     \<exists>p. deen_utf8_crop_to_unicode_len c m = Inr (p, min m n) \<and> prefix p c
        \<and> deen_utf8_sequences_count p = DEEN_SEQUENCE_OK (min m n)"
proof (induction "length c" arbitrary: c n m rule: less_induct)
  case less
  show ?case
  proof (cases "c = [] \<or> m = 0")
    case True
    have "n = 0" if "c = []"
      using less.prems that by (subst (asm) deen_utf8_sequences_count.simps) simp
    then have "min m n = 0" using True by auto
    moreover have "deen_utf8_crop_to_unicode_len c m = Inr ([], 0)"
      using True by (subst deen_utf8_crop_to_unicode_len.simps) simp
    moreover have "deen_utf8_sequences_count [] = DEEN_SEQUENCE_OK 0"
      by (subst deen_utf8_sequences_count.simps) simp
    ultimately show ?thesis by simp
  next
    case False
    then have ne: "c \<noteq> []" and m: "0 < m" by auto
    from sequences_count_step[OF less.prems ne] obtain k n' where
      k: "deen_utf8_sequence_len c = DEEN_SEQUENCE_OK k" "0 < k" "k \<le> length c"
        "deen_utf8_sequences_count (drop k c) = DEEN_SEQUENCE_OK n'" "n = Suc n'"
      by metis
    have "\<exists>p. deen_utf8_crop_to_unicode_len (drop k c) (m - 1) = Inr (p, min (m - 1) n')
        \<and> prefix p (drop k c) \<and> deen_utf8_sequences_count p = DEEN_SEQUENCE_OK (min (m - 1) n')"
      by (rule less.hyps[OF _ k(4)]) (use k ne in simp)
    then obtain p where p: "deen_utf8_crop_to_unicode_len (drop k c) (m - 1) = Inr (p, min (m - 1) n')"
      "prefix p (drop k c)" "deen_utf8_sequences_count p = DEEN_SEQUENCE_OK (min (m - 1) n')"
      by blast
    have mn: "Suc (min (m - 1) n') = min m n" using m k(5) by auto
    have crop: "deen_utf8_crop_to_unicode_len c m = Inr (take k c @ p, min m n)"
      using ne m k p(1) mn by (subst deen_utf8_crop_to_unicode_len.simps) simp
    have pre: "prefix (take k c @ p) c"
      using p(2) by (metis append_take_drop_id same_prefix_prefix)
    have "deen_utf8_sequences_count (take k c @ p) = DEEN_SEQUENCE_OK (Suc (min (m - 1) n'))"
      using sequence_len_prefix[OF k(1,2), of p] k p(3) ne
      by (subst deen_utf8_sequences_count.simps) simp
    then show ?thesis using crop pre mn by auto
  qed
qed

section \<open>The word callback\<close>

lemma new_ref_result:
  assumes "progress_cb ctx = Some g"
  shows "\<exists>ctx1 w1. deen_index_callback_new_ref env ref progress (ctx, w) = Inr (ctx1, w1)
      \<and> current_ref ctx1 = ref
      \<and> prefixes ctx1 = (if current_ref ctx = ref then prefixes ctx else [])
      \<and> is_cancelled_cb ctx1 = is_cancelled_cb ctx \<and> progress_cb ctx1 = progress_cb ctx
      \<and> cancel_polls w1 = cancel_polls w \<and> data_file w1 = data_file w
      \<and> index_file w1 = index_file w
      \<and> (\<exists>calls. progress_calls w1 = progress_calls w @ calls
             \<and> (\<forall>c\<in>set calls. fst c = DEEN_INSTALL_STATE_INDEXING))"
  using assms
  unfolding deen_index_callback_new_ref_def deen_index_flush_context_prefixes_to_index_def
    call_progress_cb_def and_then_def deen_index_add_def
  by (auto simp: Let_def)


text \<open>C8 amended\<close>


lemma c_str_id: "NUL \<notin> set p \<Longrightarrow> c_str p = p"
  unfolding c_str_def by (induction p) auto

text \<open>
  C3, as the code has it. For a word whose upper-cased form is valid UTF-8 with \<open>n\<close>
  code points (the case folding works in place and a word holds no NUL byte), delivered
  while the cancellation callback does not report true, with the bag sorted as
  \<open>deen_index_add_prefix_to_context\<close> leaves it: the callback returns true, the bag is
  that of \<open>ref\<close> (emptied by the flush when the ref changed), and it has gained the
  prefix \<open>p\<close> exactly when the upper-cased word is not a common word and \<open>n\<close> is at
  least \<open>DEEN_INDEXING_MIN\<close>; \<open>p\<close> is the upper-cased word cropped to
  \<open>min DEEN_INDEXING_DEPTH n\<close> code points. The test on the byte length adds nothing,
  since a word has no more code points than bytes.
\<close>

theorem index_callback_prefix_added:
  assumes md: "DEEN_INDEXING_MIN env \<le> DEEN_INDEXING_DEPTH env"
    and len: "length (env_to_upper env s) = length s"
    and nul: "NUL \<notin> set (env_to_upper env s)"
    and cnt: "deen_utf8_sequences_count (env_to_upper env s) = DEEN_SEQUENCE_OK n"
    and bag: "sorted (prefixes ctx)"
    and cbs: "progress_cb ctx = Some g" "is_cancelled_cb ctx = Some f"
    and nc: "\<not> f (cancel_polls w)"
  shows "\<exists>ctx' w' p.
           deen_index_callback env s ref progress (ctx, w) = Inr (True, ctx', w')
         \<and> current_ref ctx' = ref
         \<and> prefix p (env_to_upper env s)
         \<and> deen_utf8_sequences_count p = DEEN_SEQUENCE_OK (min (DEEN_INDEXING_DEPTH env) n)
         \<and> set (prefixes ctx')
             = (if \<not> env_is_common_upper_word env (env_to_upper env s) \<and> DEEN_INDEXING_MIN env \<le> n
                then insert p (set (if current_ref ctx = ref then prefixes ctx else []))
                else set (if current_ref ctx = ref then prefixes ctx else []))
         \<and> sorted (prefixes ctx')"
proof -
  let ?up = "env_to_upper env s"
  let ?bag0 = "if current_ref ctx = ref then prefixes ctx else []"
  from new_ref_result[OF cbs(1), of env ref progress w] obtain ctx1 w1 where
    1: "deen_index_callback_new_ref env ref progress (ctx, w) = Inr (ctx1, w1)"
    "current_ref ctx1 = ref" "prefixes ctx1 = ?bag0"
    "is_cancelled_cb ctx1 = is_cancelled_cb ctx" "cancel_polls w1 = cancel_polls w"
    by blast
  have cb: "deen_index_callback env s ref progress (ctx, w)
      = deen_index_callback_word env s (ctx1, w1)"
    using 1(1) by (simp add: deen_index_callback_def and_then_def)
  have s1: "sorted (prefixes ctx1)" using 1(3) bag by simp
  from crop_valid[OF cnt, of "DEEN_INDEXING_DEPTH env"] obtain p where
    p: "deen_utf8_crop_to_unicode_len ?up (DEEN_INDEXING_DEPTH env)
          = Inr (p, min (DEEN_INDEXING_DEPTH env) n)"
    "prefix p ?up"
    "deen_utf8_sequences_count p = DEEN_SEQUENCE_OK (min (DEEN_INDEXING_DEPTH env) n)"
    by blast
  have "set p \<subseteq> set ?up" using p(2) by (auto simp: prefix_def)
  then have cp: "c_str p = p" using nul by (intro c_str_id) auto
  have nle: "n \<le> length s" using sequences_count_le_length[OF cnt] len by simp
  have poll: "call_is_cancelled_cb (is_cancelled_cb ctx1) w1
      = Inr (False, w1\<lparr>cancel_polls := Suc (cancel_polls w1)\<rparr>)"
    using 1(4,5) cbs(2) nc by (simp add: call_is_cancelled_cb_def)
  let ?w2 = "w1\<lparr>cancel_polls := Suc (cancel_polls w1)\<rparr>"
  show ?thesis
  proof (cases "\<not> env_is_common_upper_word env ?up \<and> DEEN_INDEXING_MIN env \<le> n")
    case True
    then have m: "DEEN_INDEXING_MIN env \<le> length s"
      and mm: "DEEN_INDEXING_MIN env \<le> min (DEEN_INDEXING_DEPTH env) n"
      using nle md by auto
    from add_prefix_if_not_present[OF s1, of p] obtain ps where
      ps: "deen_index_add_prefix_to_context_if_not_present ctx1 p = Inr (ctx1\<lparr>prefixes := ps\<rparr>)"
      "sorted ps" "set ps = insert p (set (prefixes ctx1))"
      by blast
    have "deen_index_callback_word env s (ctx1, w1) = Inr (True, ctx1\<lparr>prefixes := ps\<rparr>, ?w2)"
      using True m mm poll p(1) ps(1) cp
      by (simp add: deen_index_callback_word_def and_then_def Let_def)
    then show ?thesis
      using cb True p(2,3) ps(2,3) 1(2,3)
      by (intro exI[of _ "ctx1\<lparr>prefixes := ps\<rparr>"] exI[of _ ?w2] exI[of _ p]) simp
  next
    case False
    have "deen_index_callback_word env s (ctx1, w1) = Inr (True, ctx1, w1)
        \<or> deen_index_callback_word env s (ctx1, w1) = Inr (True, ctx1, ?w2)"
    proof (cases "DEEN_INDEXING_MIN env \<le> length s")
      case notshort: True
      have "\<not> DEEN_INDEXING_MIN env \<le> min (DEEN_INDEXING_DEPTH env) n"
        if "\<not> env_is_common_upper_word env ?up"
        using False that by simp
      then have "deen_index_callback_word env s (ctx1, w1) = Inr (True, ctx1, ?w2)"
        using notshort poll p(1)
        by (auto simp: deen_index_callback_word_def and_then_def Let_def)
      then show ?thesis by simp
    next
      case short: False
      then show ?thesis by (simp add: deen_index_callback_word_def)
    qed
    then show ?thesis
    proof
      assume "deen_index_callback_word env s (ctx1, w1) = Inr (True, ctx1, w1)"
      then show ?thesis
        using cb False p(2,3) s1 1(2,3)
        by (intro exI[of _ ctx1] exI[of _ w1] exI[of _ p]) auto
    next
      assume "deen_index_callback_word env s (ctx1, w1) = Inr (True, ctx1, ?w2)"
      then show ?thesis
        using cb False p(2,3) s1 1(2,3)
        by (intro exI[of _ ctx1] exI[of _ ?w2] exI[of _ p]) auto
    qed
  qed
qed

lemmas callback_defs = deen_index_callback_def deen_index_callback_new_ref_def
  deen_index_callback_word_def deen_index_flush_context_prefixes_to_index_def deen_index_add_def
  call_progress_cb_def call_is_cancelled_cb_def and_then_def
  deen_index_add_prefix_to_context_if_not_present_def deen_index_add_prefix_to_context_def
  deen_index_prefix_compare_def

lemmas sample_defs = env_sample_def world_start_def ctx_sample_def cancelled_from_def
  percent_sample_def is_common_sample_def common_words_sample_def
  deen_noop_is_cancelled_cb_def deen_noop_install_progress_cb_def

lemma upper_apfelbaum: "deen_to_upper ''Apfelbaum'' = ''APFELBAUM''"
  by code_simp

lemma count_apfelbaum: "deen_utf8_sequences_count ''APFELBAUM'' = DEEN_SEQUENCE_OK 9"
  by code_simp

lemma crop_apfelbaum: "deen_utf8_crop_to_unicode_len ''APFELBAUM'' 3 = Inr (''APF'', 3)"
  by code_simp

lemma bsearch_apf: "bsearch_c ''APF'' [''HAU''] = False"
  by code_simp

lemma qsort_apf: "qsort_c deen_index_prefix_compare [''HAU'', ''APF''] = Inr [''APF'', ''HAU'']"
  by code_simp

text \<open>
  C3 as the claim states it fails at a word for which the cancellation callback reports
  true: the word is not a common word and has nine code points, and no prefix is added.
\<close>

theorem index_callback_prefix_added_counterexample:
  "deen_index_callback env_sample ''Apfelbaum'' 0 0
     (ctx_sample (cancelled_from 0) 0 [''HAU''], world_start)
     = Inr (False, ctx_sample (cancelled_from 0) 0 [''HAU''], world_start\<lparr>cancel_polls := 1\<rparr>)
   \<and> \<not> env_is_common_upper_word env_sample (env_to_upper env_sample ''Apfelbaum'')
   \<and> deen_utf8_sequences_count (env_to_upper env_sample ''Apfelbaum'') = DEEN_SEQUENCE_OK 9
   \<and> DEEN_INDEXING_MIN env_sample \<le> 9"
  by (simp add: callback_defs sample_defs upper_apfelbaum count_apfelbaum
      del: deen_to_upper.simps)

theorem index_callback_prefix_added_witness:
  "deen_index_callback env_sample ''Apfelbaum'' 0 0
     (ctx_sample deen_noop_is_cancelled_cb 0 [''HAU''], world_start)
     = Inr (True, ctx_sample deen_noop_is_cancelled_cb 0 [''APF'', ''HAU''],
            world_start\<lparr>cancel_polls := 1\<rparr>)
   \<and> (\<exists>ctx' w' p.
           deen_index_callback env_sample ''Apfelbaum'' 0 0
             (ctx_sample deen_noop_is_cancelled_cb 0 [''HAU''], world_start) = Inr (True, ctx', w')
         \<and> current_ref ctx' = 0
         \<and> prefix p (env_to_upper env_sample ''Apfelbaum'')
         \<and> deen_utf8_sequences_count p = DEEN_SEQUENCE_OK (min (DEEN_INDEXING_DEPTH env_sample) 9)
         \<and> set (prefixes ctx')
             = (if \<not> env_is_common_upper_word env_sample (env_to_upper env_sample ''Apfelbaum'')
                   \<and> DEEN_INDEXING_MIN env_sample \<le> 9
                then insert p (set (if current_ref (ctx_sample deen_noop_is_cancelled_cb 0 [''HAU'']) = 0
                                    then prefixes (ctx_sample deen_noop_is_cancelled_cb 0 [''HAU''])
                                    else []))
                else set (if current_ref (ctx_sample deen_noop_is_cancelled_cb 0 [''HAU'']) = 0
                          then prefixes (ctx_sample deen_noop_is_cancelled_cb 0 [''HAU''])
                          else []))
         \<and> sorted (prefixes ctx'))"
proof
  show "deen_index_callback env_sample ''Apfelbaum'' 0 0
     (ctx_sample deen_noop_is_cancelled_cb 0 [''HAU''], world_start)
     = Inr (True, ctx_sample deen_noop_is_cancelled_cb 0 [''APF'', ''HAU''],
            world_start\<lparr>cancel_polls := 1\<rparr>)"
    by (simp add: callback_defs sample_defs upper_apfelbaum crop_apfelbaum bsearch_apf qsort_apf
        c_str_def NUL_def del: qsort_c.simps deen_to_upper.simps)
  show "\<exists>ctx' w' p.
           deen_index_callback env_sample ''Apfelbaum'' 0 0
             (ctx_sample deen_noop_is_cancelled_cb 0 [''HAU''], world_start) = Inr (True, ctx', w')
         \<and> current_ref ctx' = 0
         \<and> prefix p (env_to_upper env_sample ''Apfelbaum'')
         \<and> deen_utf8_sequences_count p = DEEN_SEQUENCE_OK (min (DEEN_INDEXING_DEPTH env_sample) 9)
         \<and> set (prefixes ctx')
             = (if \<not> env_is_common_upper_word env_sample (env_to_upper env_sample ''Apfelbaum'')
                   \<and> DEEN_INDEXING_MIN env_sample \<le> 9
                then insert p (set (if current_ref (ctx_sample deen_noop_is_cancelled_cb 0 [''HAU'']) = 0
                                    then prefixes (ctx_sample deen_noop_is_cancelled_cb 0 [''HAU''])
                                    else []))
                else set (if current_ref (ctx_sample deen_noop_is_cancelled_cb 0 [''HAU'']) = 0
                          then prefixes (ctx_sample deen_noop_is_cancelled_cb 0 [''HAU''])
                          else []))
         \<and> sorted (prefixes ctx')"
  proof (rule index_callback_prefix_added[where g = deen_noop_install_progress_cb
        and f = deen_noop_is_cancelled_cb])
    show "DEEN_INDEXING_MIN env_sample \<le> DEEN_INDEXING_DEPTH env_sample"
      by (simp add: env_sample_def)
    show "length (env_to_upper env_sample ''Apfelbaum'') = length ''Apfelbaum''"
      by (simp add: env_sample_def upper_apfelbaum del: deen_to_upper.simps)
    show "NUL \<notin> set (env_to_upper env_sample ''Apfelbaum'')"
      by (simp add: env_sample_def upper_apfelbaum NUL_def del: deen_to_upper.simps)
    show "deen_utf8_sequences_count (env_to_upper env_sample ''Apfelbaum'') = DEEN_SEQUENCE_OK 9"
      by (simp add: env_sample_def upper_apfelbaum count_apfelbaum del: deen_to_upper.simps)
    show "sorted (prefixes (ctx_sample deen_noop_is_cancelled_cb 0 [''HAU'']))"
      by (simp add: ctx_sample_def)
    show "progress_cb (ctx_sample deen_noop_is_cancelled_cb 0 [''HAU'']) = Some deen_noop_install_progress_cb"
      by (simp add: ctx_sample_def)
    show "is_cancelled_cb (ctx_sample deen_noop_is_cancelled_cb 0 [''HAU'']) = Some deen_noop_is_cancelled_cb"
      by (simp add: ctx_sample_def)
    show "\<not> deen_noop_is_cancelled_cb (cancel_polls world_start)"
      by (simp add: deen_noop_is_cancelled_cb_def)
  qed
qed



section \<open>The installation\<close>

lemma no_idle_refl: "no_idle_since w w"
  by (simp add: no_idle_since_def)

lemma no_idle_trans: "no_idle_since w w1 \<Longrightarrow> no_idle_since w1 w2 \<Longrightarrow> no_idle_since w w2"
  unfolding no_idle_since_def by auto

lemma no_idle_same: "progress_calls w' = progress_calls w \<Longrightarrow> no_idle_since w w'"
  by (simp add: no_idle_since_def)

lemma no_idle_call:
  "st \<noteq> DEEN_INSTALL_STATE_IDLE \<Longrightarrow>
   no_idle_since w (w\<lparr>progress_calls := progress_calls w @ [(st, p)]\<rparr>)"
  by (simp add: no_idle_since_def)

lemma crop_no_null: "deen_utf8_crop_to_unicode_len c m \<noteq> Inl NULL_CALL"
proof (induction c m rule: deen_utf8_crop_to_unicode_len.induct)
  case (1 c m)
  show ?case
    using "1.IH"
    by (subst deen_utf8_crop_to_unicode_len.simps)
       (auto split: deen_utf8_sequence_result.splits sum.splits)
qed

lemma add_if_not_present_frame:
  "\<exists>ps. deen_index_add_prefix_to_context_if_not_present ctx s = Inr (ctx\<lparr>prefixes := ps\<rparr>)"
proof (cases "prefixes ctx = [] \<or> \<not> bsearch_c s (prefixes ctx)")
  case True
  then show ?thesis using add_prefix_to_context[of ctx s]
    by (auto simp: deen_index_add_prefix_to_context_if_not_present_def)
next
  case False
  then show ?thesis
    by (intro exI[of _ "prefixes ctx"])
       (simp add: deen_index_add_prefix_to_context_if_not_present_def)
qed

lemma add_if_not_present_no_exit:
  "deen_index_add_prefix_to_context_if_not_present ctx s \<noteq> Inl e"
  using add_if_not_present_frame[of ctx s] by auto

lemma add_if_not_present_keeps:
  "deen_index_add_prefix_to_context_if_not_present ctx s = Inr ctx' \<Longrightarrow>
   progress_cb ctx' = progress_cb ctx \<and> is_cancelled_cb ctx' = is_cancelled_cb ctx"
  using add_if_not_present_frame[of ctx s] by auto

text \<open>What one call of the word callback keeps, when both pointers are set.\<close>

lemma index_callback_frame:
  assumes "progress_cb ctx = Some g" "is_cancelled_cb ctx = Some f"
  shows "deen_index_callback env s ref progress (ctx, w) \<noteq> Inl NULL_CALL"
    and "deen_index_callback env s ref progress (ctx, w) = Inr (continue, ctx', w') \<Longrightarrow>
           progress_cb ctx' = Some g \<and> is_cancelled_cb ctx' = Some f
         \<and> no_idle_since w w' \<and> data_file w' = data_file w \<and> index_file w' = index_file w"
proof -
  from new_ref_result[OF assms(1), of env ref progress w] obtain ctx1 w1 calls where
    1: "deen_index_callback_new_ref env ref progress (ctx, w) = Inr (ctx1, w1)"
    "is_cancelled_cb ctx1 = is_cancelled_cb ctx" "progress_cb ctx1 = progress_cb ctx"
    "data_file w1 = data_file w" "index_file w1 = index_file w"
    "progress_calls w1 = progress_calls w @ calls"
    "\<forall>c\<in>set calls. fst c = DEEN_INSTALL_STATE_INDEXING"
    by blast
  have n1: "no_idle_since w w1"
    unfolding no_idle_since_def using 1(6,7) by (auto simp: list_all_iff)
  have cb: "deen_index_callback env s ref progress (ctx, w)
      = deen_index_callback_word env s (ctx1, w1)"
    using 1(1) by (simp add: deen_index_callback_def and_then_def)
  have f1: "is_cancelled_cb ctx1 = Some f" and g1: "progress_cb ctx1 = Some g"
    using 1(2,3) assms by simp_all
  show "deen_index_callback env s ref progress (ctx, w) \<noteq> Inl NULL_CALL"
    unfolding cb using f1 crop_no_null[of "env_to_upper env s" "DEEN_INDEXING_DEPTH env"]
    unfolding deen_index_callback_word_def call_is_cancelled_cb_def and_then_def
    by (auto simp: Let_def add_if_not_present_no_exit split: sum.splits prod.splits)
  assume "deen_index_callback env s ref progress (ctx, w) = Inr (continue, ctx', w')"
  then have w: "deen_index_callback_word env s (ctx1, w1) = Inr (continue, ctx', w')"
    using cb by simp
  have "progress_cb ctx' = Some g \<and> is_cancelled_cb ctx' = Some f
      \<and> progress_calls w' = progress_calls w1 \<and> data_file w' = data_file w1
      \<and> index_file w' = index_file w1"
    using w f1 g1
    unfolding deen_index_callback_word_def call_is_cancelled_cb_def and_then_def
    by (auto simp: Let_def split: sum.splits prod.splits if_splits
        dest: add_if_not_present_keeps)
  then show "progress_cb ctx' = Some g \<and> is_cancelled_cb ctx' = Some f
         \<and> no_idle_since w w' \<and> data_file w' = data_file w \<and> index_file w' = index_file w"
    using n1 1(4,5) no_idle_trans[OF n1 no_idle_same[of w' w1]] by simp
qed

lemma for_each_word_frame:
  assumes "progress_cb ctx = Some g" "is_cancelled_cb ctx = Some f"
  shows "deen_for_each_word_from_file (\<lambda>(s, ref, progress). deen_index_callback env s ref progress)
           wds read_ok (ctx, w) \<noteq> Inl NULL_CALL
       \<and> (\<forall>processed ctx' w'.
             deen_for_each_word_from_file (\<lambda>(s, ref, progress). deen_index_callback env s ref progress)
               wds read_ok (ctx, w) = Inr (processed, ctx', w') \<longrightarrow>
             no_idle_since w w' \<and> data_file w' = data_file w \<and> index_file w' = index_file w)"
  using assms
proof (induction wds arbitrary: ctx w)
  case Nil
  then show ?case by (simp add: no_idle_refl)
next
  case (Cons wd wds)
  obtain s ref progress where wd: "wd = (s, ref, progress)" by (cases wd)
  note fr = index_callback_frame[OF Cons.prems, of env s ref progress w]
  show ?case
  proof (cases "deen_index_callback env s ref progress (ctx, w)")
    case (Inl e)
    then show ?thesis using fr(1) wd by (simp add: and_then_def)
  next
    case (Inr r)
    obtain continue ctx1 w1 where r: "r = (continue, ctx1, w1)" by (cases r)
    from fr(2)[of continue ctx1 w1] Inr r have
      k: "progress_cb ctx1 = Some g" "is_cancelled_cb ctx1 = Some f" "no_idle_since w w1"
      "data_file w1 = data_file w" "index_file w1 = index_file w"
      by simp_all
    show ?thesis
    proof (cases continue)
      case True
      then have "deen_for_each_word_from_file
          (\<lambda>(s, ref, progress). deen_index_callback env s ref progress) (wd # wds) read_ok (ctx, w)
        = deen_for_each_word_from_file
          (\<lambda>(s, ref, progress). deen_index_callback env s ref progress) wds read_ok (ctx1, w1)"
        using Inr r wd by (simp add: and_then_def)
      then show ?thesis
        using Cons.IH[OF k(1,2), of w1] k(3,4,5) no_idle_trans[OF k(3)] by auto
    next
      case False
      then have "deen_for_each_word_from_file
          (\<lambda>(s, ref, progress). deen_index_callback env s ref progress) (wd # wds) read_ok (ctx, w)
        = Inr (False, ctx1, w1)"
        using Inr r wd by (simp add: and_then_def)
      then show ?thesis using k(3,4,5) by simp
    qed
  qed
qed

lemmas install_step_defs = deen_install_may_proceed_def deen_install_raise_error_def
  call_progress_cb_def call_is_cancelled_cb_def and_then_def

lemma install_copy_run:
  "\<exists>e' w'. deen_install_copy sys (Some g) (Some f) (e, w) = Inr (e', w')
      \<and> (e \<longrightarrow> e') \<and> no_idle_since w w'
      \<and> (\<not> e' \<and> \<not> e \<and> \<not> f (cancel_polls w) \<longrightarrow> data_file w')"
  unfolding deen_install_copy_def install_step_defs no_idle_since_def
  by (auto simp: Let_def)

lemma install_open_db_run:
  "\<exists>e' db w'. deen_install_open_db sys (Some g) (Some f) (e, w) = Inr (e', db, w')
      \<and> (e \<longrightarrow> e') \<and> no_idle_since w w' \<and> data_file w' = data_file w"
  unfolding deen_install_open_db_def install_step_defs no_idle_since_def
  by (auto simp: Let_def)

lemma install_index_init_run:
  "\<exists>w'. deen_install_index_init (Some f) db (e, w) = Inr (e, w')
      \<and> no_idle_since w w' \<and> data_file w' = data_file w"
  unfolding deen_install_index_init_def install_step_defs no_idle_since_def
  by (auto simp: Let_def)

lemma install_open_data_run:
  "\<exists>e' fd w'. deen_install_open_data env sys (Some g) (Some f) (e, w) = Inr (e', fd, w')
      \<and> (e \<longrightarrow> e') \<and> no_idle_since w w' \<and> data_file w' = data_file w"
  unfolding deen_install_open_data_def install_step_defs no_idle_since_def
  by (auto simp: Let_def)

lemma install_index_run:
  "deen_install_index env sys (Some g) (Some f) fd (e, w) \<noteq> Inl NULL_CALL
   \<and> (\<forall>e' w'. deen_install_index env sys (Some g) (Some f) fd (e, w) = Inr (e', w') \<longrightarrow>
         (e \<longrightarrow> e') \<and> no_idle_since w w' \<and> data_file w' = data_file w)"
proof (cases "e \<or> f (cancel_polls w)")
  case True
  then show ?thesis
    unfolding deen_install_index_def install_step_defs no_idle_since_def
    by (auto simp: Let_def)
next
  case False
  define w1 where "w1 = w\<lparr>cancel_polls := Suc (cancel_polls w)\<rparr>"
  define ctx where "ctx = \<lparr>is_cancelled_cb = Some f, lastprogress = - 1,
                       progress_cb = Some g, current_ref = 0, prefixes = []\<rparr>"
  define run where "run = deen_for_each_word_from_file
      (\<lambda>(s, ref, progress). deen_index_callback env s ref progress)
      (if fd then ding_words sys else []) (fd \<and> ding_read_ok sys) (ctx, w1)"
  have cbs: "progress_cb ctx = Some g" "is_cancelled_cb ctx = Some f"
    by (simp_all add: ctx_def)
  have ef: "e = False" "\<not> f (cancel_polls w)" using False by simp_all
  note fr = for_each_word_frame[OF cbs, of env "if fd then ding_words sys else []"
      "fd \<and> ding_read_ok sys" w1, folded run_def]
  have eq: "deen_install_index env sys (Some g) (Some f) fd (e, w)
      = and_then run (\<lambda>(processed, index_context, w).
            and_then
              (if \<not> processed then deen_install_raise_error (Some g) w else Inr (e, w))
              (\<lambda>(is_error, w).
                 Inr (is_error,
                      snd (deen_index_flush_context_prefixes_to_index (index_context, w)))))"
    using ef(2)
    unfolding ef(1) deen_install_index_def deen_install_may_proceed_def call_is_cancelled_cb_def
      run_def ctx_def w1_def
    by (simp add: and_then_def Let_def)
  have w1: "no_idle_since w w1" "data_file w1 = data_file w"
    by (simp_all add: w1_def no_idle_since_def)
  show ?thesis
  proof (cases run)
    case (Inl x)
    then show ?thesis using eq fr by (simp add: and_then_def)
  next
    case (Inr r)
    obtain processed ctx' w2 where r: "r = (processed, ctx', w2)" by (cases r)
    have k: "no_idle_since w1 w2" "data_file w2 = data_file w1"
      using fr Inr r by auto
    have flush: "no_idle_since v (snd (deen_index_flush_context_prefixes_to_index (c, v)))
        \<and> data_file (snd (deen_index_flush_context_prefixes_to_index (c, v))) = data_file v"
      for c v
      by (simp add: deen_index_flush_context_prefixes_to_index_def deen_index_add_def
          no_idle_since_def)
    show ?thesis
    proof (cases processed)
      case True
      then have res: "deen_install_index env sys (Some g) (Some f) fd (e, w)
          = Inr (e, snd (deen_index_flush_context_prefixes_to_index (ctx', w2)))"
        using eq Inr r by (simp add: and_then_def)
      have "no_idle_since w w2" using w1(1) k(1) by (rule no_idle_trans)
      then have n: "no_idle_since w (snd (deen_index_flush_context_prefixes_to_index (ctx', w2)))"
        using flush[of w2 ctx'] no_idle_trans by blast
      have d: "data_file (snd (deen_index_flush_context_prefixes_to_index (ctx', w2))) = data_file w"
        using flush[of w2 ctx'] k(2) w1(2) by simp
      show ?thesis unfolding res using n d by simp
    next
      case False
      define w3 where "w3 = w2\<lparr>progress_calls := progress_calls w2 @ [(DEEN_INSTALL_STATE_ERROR, 0)]\<rparr>"
      have 3: "no_idle_since w2 w3" "data_file w3 = data_file w2"
        by (simp_all add: w3_def no_idle_since_def)
      have res: "deen_install_index env sys (Some g) (Some f) fd (e, w)
          = Inr (True, snd (deen_index_flush_context_prefixes_to_index (ctx', w3)))"
        using eq Inr r False
        by (simp add: and_then_def deen_install_raise_error_def call_progress_cb_def w3_def)
      have "no_idle_since w w2" using w1(1) k(1) by (rule no_idle_trans)
      then have "no_idle_since w w3" using 3(1) by (rule no_idle_trans)
      then have n: "no_idle_since w (snd (deen_index_flush_context_prefixes_to_index (ctx', w3)))"
        using flush[of w3 ctx'] no_idle_trans by blast
      have d: "data_file (snd (deen_index_flush_context_prefixes_to_index (ctx', w3))) = data_file w"
        using flush[of w3 ctx'] k(2) w1(2) 3(2) by simp
      show ?thesis unfolding res using n d by simp
    qed
  qed
qed

lemma install_cleanup_run:
  "\<exists>w'. deen_install_cleanup sys (Some f) (e, w) = Inr w'
      \<and> no_idle_since w w' \<and> (\<not> e \<and> \<not> f (cancel_polls w) \<longrightarrow> data_file w' = data_file w)"
  unfolding deen_install_cleanup_def install_step_defs no_idle_since_def
    remove_data_file_def remove_index_file_def
  by (auto simp: Let_def)

lemma install_report_run:
  "\<exists>w'. deen_install_report (Some g) (Some f) e w = Inr w'
      \<and> data_file w' = data_file w \<and> (\<not> (e \<and> f (cancel_polls w)) \<longrightarrow> no_idle_since w w')"
  unfolding deen_install_report_def install_step_defs no_idle_since_def
  by (auto simp: Let_def)

lemma install_init_frame: "progress_calls (deen_install_init sys w) = progress_calls w"
  unfolding deen_install_init_def remove_index_file_def remove_data_file_def
  by (auto split: prod.splits)

lemma install_run:
  shows "deen_install_from_path env sys (Some g) (Some f) w \<noteq> Inl NULL_CALL"
    and "(\<And>n. \<not> f n) \<Longrightarrow> deen_install_from_path env sys (Some g) (Some f) w = Inr (ok, w') \<Longrightarrow>
           no_idle_since w w' \<and> (ok \<longrightarrow> data_file w')"
proof -
  define w0 where "w0 = w\<lparr>progress_calls := progress_calls w @ [(DEEN_INSTALL_STATE_STARTING, 0)]\<rparr>"
  define wi where "wi = deen_install_init sys w0"
  have n0: "no_idle_since w w0" by (simp add: w0_def no_idle_since_def)
  have ni: "no_idle_since w0 wi" by (simp add: wi_def no_idle_same install_init_frame)
  from install_copy_run[of sys g f False wi] obtain e1 w1 where
    c1: "deen_install_copy sys (Some g) (Some f) (False, wi) = Inr (e1, w1)"
    and n1: "no_idle_since wi w1" and d1: "\<not> e1 \<and> \<not> f (cancel_polls wi) \<longrightarrow> data_file w1"
    by auto
  from install_open_db_run[of sys g f e1 w1] obtain e2 db w2 where
    c2: "deen_install_open_db sys (Some g) (Some f) (e1, w1) = Inr (e2, db, w2)"
    and m2: "e1 \<longrightarrow> e2" and n2: "no_idle_since w1 w2" and d2: "data_file w2 = data_file w1"
    by blast
  from install_index_init_run[of f db e2 w2] obtain w3 where
    c3: "deen_install_index_init (Some f) db (e2, w2) = Inr (e2, w3)"
    and n3: "no_idle_since w2 w3" and d3: "data_file w3 = data_file w2"
    by blast
  from install_open_data_run[of env sys g f e2 w3] obtain e4 fd w4 where
    c4: "deen_install_open_data env sys (Some g) (Some f) (e2, w3) = Inr (e4, fd, w4)"
    and m4: "e2 \<longrightarrow> e4" and n4: "no_idle_since w3 w4" and d4: "data_file w4 = data_file w3"
    by blast
  have n04: "no_idle_since w w4"
    using n0 ni n1 n2 n3 n4 no_idle_trans by blast
  have r: "deen_install_from_path env sys (Some g) (Some f) w
      = and_then (deen_install_index env sys (Some g) (Some f) fd (e4, w4))
          (\<lambda>(is_error, w).
             and_then (deen_install_cleanup sys (Some f) (is_error, w))
               (\<lambda>w. and_then (deen_install_report (Some g) (Some f) is_error w)
                       (\<lambda>w. Inr (\<not> is_error, w))))"
    unfolding deen_install_from_path_def
    by (simp add: call_progress_cb_def w0_def[symmetric] wi_def[symmetric] c1 c2 c3 c4
        and_then_def[of "Inr _"] Let_def)
  note ix = install_index_run[of env sys g f fd e4 w4]
  show "deen_install_from_path env sys (Some g) (Some f) w \<noteq> Inl NULL_CALL"
  proof (cases "deen_install_index env sys (Some g) (Some f) fd (e4, w4)")
    case (Inl x)
    then show ?thesis using r ix by (simp add: and_then_def)
  next
    case (Inr p)
    obtain e5 w5 where p: "p = (e5, w5)" by (cases p)
    from install_cleanup_run[of sys f e5 w5] obtain w6 where
      c6: "deen_install_cleanup sys (Some f) (e5, w5) = Inr w6" by blast
    from install_report_run[of g f e5 w6] obtain w7 where
      c7: "deen_install_report (Some g) (Some f) e5 w6 = Inr w7" by blast
    show ?thesis using r Inr p c6 c7 by (simp add: and_then_def)
  qed
  assume nof: "\<And>n. \<not> f n"
    and res: "deen_install_from_path env sys (Some g) (Some f) w = Inr (ok, w')"
  show "no_idle_since w w' \<and> (ok \<longrightarrow> data_file w')"
  proof (cases "deen_install_index env sys (Some g) (Some f) fd (e4, w4)")
    case (Inl x)
    then show ?thesis using r res by (simp add: and_then_def)
  next
    case (Inr p)
    obtain e5 w5 where p: "p = (e5, w5)" by (cases p)
    have i5: "e4 \<longrightarrow> e5" "no_idle_since w4 w5" "data_file w5 = data_file w4"
      using ix Inr p by auto
    from install_cleanup_run[of sys f e5 w5] obtain w6 where
      c6: "deen_install_cleanup sys (Some f) (e5, w5) = Inr w6"
      and n6: "no_idle_since w5 w6" and d6: "\<not> e5 \<longrightarrow> data_file w6 = data_file w5"
      using nof by blast
    from install_report_run[of g f e5 w6] obtain w7 where
      c7: "deen_install_report (Some g) (Some f) e5 w6 = Inr w7"
      and d7: "data_file w7 = data_file w6" and n7: "no_idle_since w6 w7"
      using nof by blast
    have fin: "ok = (\<not> e5)" "w' = w7"
      using r res Inr p c6 c7 by (simp_all add: and_then_def)
    have "no_idle_since w w7"
      using n04 i5(2) n6 n7 no_idle_trans by blast
    moreover have "data_file w7" if "\<not> e5"
    proof -
      from that have "\<not> e1" using m2 m4 i5(1) by blast
      then have "data_file w1" using d1 nof by simp
      then show ?thesis using d2 d3 d4 i5(3) d6 d7 that by simp
    qed
    ultimately show ?thesis using fin by simp
  qed
qed

text \<open>
  C10: for every pair of callbacks, \<open>NULL\<close> or not, \<open>deen_install_from_path\<close> never calls
  through a null pointer; a \<open>NULL\<close> callback behaves as the no-op of the source; and with
  a \<open>NULL\<close> cancellation callback the installation is never treated as cancelled: the
  state IDLE is never reported, and when the function returns true the copied data file
  is in place.
\<close>

theorem install_null_callbacks:
  "deen_install_from_path env sys progress_cb_arg is_cancelled_cb_arg w \<noteq> Inl NULL_CALL
   \<and> deen_install_from_path env sys None is_cancelled_cb_arg w
       = deen_install_from_path env sys (Some deen_noop_install_progress_cb) is_cancelled_cb_arg w
   \<and> deen_install_from_path env sys progress_cb_arg None w
       = deen_install_from_path env sys progress_cb_arg (Some deen_noop_is_cancelled_cb) w
   \<and> (\<forall>ok w'. deen_install_from_path env sys progress_cb_arg None w = Inr (ok, w') \<longrightarrow>
         no_idle_since w w' \<and> (ok \<longrightarrow> data_file w'))"
proof -
  have p: "deen_install_from_path env sys None c w
      = deen_install_from_path env sys (Some deen_noop_install_progress_cb) c w" for c
    by (simp add: deen_install_from_path_def)
  have c: "deen_install_from_path env sys q None w
      = deen_install_from_path env sys q (Some deen_noop_is_cancelled_cb) w" for q
    by (simp add: deen_install_from_path_def)
  obtain g where g: "deen_install_from_path env sys progress_cb_arg is_cancelled_cb_arg w
      = deen_install_from_path env sys (Some g) is_cancelled_cb_arg w"
    using p by (cases progress_cb_arg) auto
  obtain f where f: "deen_install_from_path env sys (Some g) is_cancelled_cb_arg w
      = deen_install_from_path env sys (Some g) (Some f) w"
    using c by (cases is_cancelled_cb_arg) auto
  have 1: "deen_install_from_path env sys progress_cb_arg is_cancelled_cb_arg w \<noteq> Inl NULL_CALL"
    unfolding g f by (rule install_run(1))
  obtain g' where g': "deen_install_from_path env sys progress_cb_arg None w
      = deen_install_from_path env sys (Some g') (Some deen_noop_is_cancelled_cb) w"
    using p c by (cases progress_cb_arg) auto
  have 4: "no_idle_since w w' \<and> (ok \<longrightarrow> data_file w')"
    if "deen_install_from_path env sys progress_cb_arg None w = Inr (ok, w')" for ok w'
    using install_run(2)[of deen_noop_is_cancelled_cb env sys g' w ok w'] that g'
    by (simp add: deen_noop_is_cancelled_cb_def)
  show ?thesis using 1 p c 4 by blast
qed

theorem install_null_callbacks_witness:
  "deen_install_from_path env_sample sys_sample None None world_start
     = Inr (True,
         \<lparr>cancel_polls = 11,
          progress_calls = [(DEEN_INSTALL_STATE_STARTING, 0), (DEEN_INSTALL_STATE_INDEXING, 3 / 4),
                            (DEEN_INSTALL_STATE_COMPLETED, 1)],
          index_rows = [(0, [''HAU'', ''HOU'']), (14, [''APF'', ''APP'', ''TRE''])],
          data_file = True, index_file = True\<rparr>)
   \<and> deen_install_from_path env_sample sys_sample None None world_start \<noteq> Inl NULL_CALL
   \<and> no_idle_since world_start
        \<lparr>cancel_polls = 11,
          progress_calls = [(DEEN_INSTALL_STATE_STARTING, 0), (DEEN_INSTALL_STATE_INDEXING, 3 / 4),
                            (DEEN_INSTALL_STATE_COMPLETED, 1)],
          index_rows = [(0, [''HAU'', ''HOU'']), (14, [''APF'', ''APP'', ''TRE''])],
          data_file = True, index_file = True\<rparr>"
proof -
  have h: "deen_install_from_path env_sample sys_sample None None world_start
     = Inr (True,
         \<lparr>cancel_polls = 11,
          progress_calls = [(DEEN_INSTALL_STATE_STARTING, 0), (DEEN_INSTALL_STATE_INDEXING, 3 / 4),
                            (DEEN_INSTALL_STATE_COMPLETED, 1)],
          index_rows = [(0, [''HAU'', ''HOU'']), (14, [''APF'', ''APP'', ''TRE''])],
          data_file = True, index_file = True\<rparr>)"
    by code_simp
  note t = install_null_callbacks[of env_sample sys_sample None None world_start]
  show ?thesis using h t by blast
qed

text \<open>
  C5 does not hold on the code. When the cancellation callback reports true outside the
  indexing loop, the five blocks are skipped and the files are removed, but \<open>is_error\<close>
  stays false: the function reports COMPLETED and returns true. Here the callback
  answers false once (before the copy) and true from then on.
\<close>

theorem install_cancelled_after_copy_returns_true:
  "deen_install_from_path env_sample sys_sample None (Some (cancelled_from 1)) world_start
     = Inr (True,
         \<lparr>cancel_polls = 6,
          progress_calls = [(DEEN_INSTALL_STATE_STARTING, 0), (DEEN_INSTALL_STATE_COMPLETED, 1)],
          index_rows = [], data_file = False, index_file = False\<rparr>)"
  by code_simp

text \<open>
  The sibling path: cancelled inside the indexing loop, the same function reports ERROR
  and IDLE and returns false.
\<close>

lemma install_cancelled_while_indexing_returns_false:
  "deen_install_from_path env_sample sys_sample None (Some (cancelled_from 6)) world_start
     = Inr (False,
         \<lparr>cancel_polls = 8,
          progress_calls = [(DEEN_INSTALL_STATE_STARTING, 0), (DEEN_INSTALL_STATE_ERROR, 0),
                            (DEEN_INSTALL_STATE_IDLE, 0)],
          index_rows = [(0, [''HAU''])], data_file = False, index_file = False\<rparr>)"
  by code_simp

end
